theory Spec2Isabelle
  imports Main "HOL-Library.Word"
begin

section \<open>JavaScript strings\<close>

text \<open>
  A JavaScript string is a sequence of UTF-16 code units; \<open>length\<close>, \<open>indexOf\<close>,
  \<open>substring\<close> and the patterns of the rule (none has the \<open>u\<close> flag) all count and
  compare code units. \<open>js\<close> writes an ASCII literal as such a sequence.
\<close>

type_synonym cu = "16 word"

type_synonym jsstring = "cu list"

definition js :: "string \<Rightarrow> jsstring" where
  "js s = map of_char s"

text \<open>
  \<open>String.prototype.substring(a, b)\<close>: both arguments are clamped to the length and
  swapped when the first is the larger one.
\<close>

definition substring :: "jsstring \<Rightarrow> nat \<Rightarrow> nat \<Rightarrow> jsstring" where
  "substring s a b =
     (let a' = min a (length s); b' = min b (length s);
          lo = min a' b'; hi = max a' b'
      in take (hi - lo) (drop lo s))"

text \<open>
  \<open>String.prototype.indexOf(m)\<close>: the smallest index at which \<open>m\<close> occurs in the
  string, \<open>-1\<close> when it occurs nowhere.
\<close>

fun indexOf :: "jsstring \<Rightarrow> jsstring \<Rightarrow> int" where
  "indexOf [] m = (if m = [] then 0 else - 1)"
| "indexOf (x # xs) m =
     (if take (length m) (x # xs) = m then 0
      else (let k = indexOf xs m in if k = - 1 then - 1 else k + 1))"

text \<open>\<open>Array.prototype.indexOf(x)\<close>: the first index holding \<open>x\<close>, or \<open>-1\<close>.\<close>

fun array_indexOf :: "'a list \<Rightarrow> 'a \<Rightarrow> int" where
  "array_indexOf [] x = - 1"
| "array_indexOf (y # ys) x =
     (if y = x then 0
      else (let k = array_indexOf ys x in if k = - 1 then - 1 else k + 1))"

section \<open>Regular expressions\<close>

text \<open>
  The character classes the three patterns use. \<open>\s\<close> is ECMAScript's WhiteSpace and
  LineTerminator; \<open>\w\<close> is \<open>[A-Za-z0-9_]\<close>.
\<close>

definition is_space :: "cu \<Rightarrow> bool" where
  "is_space c =
     (c = 0x09 \<or> c = 0x0A \<or> c = 0x0B \<or> c = 0x0C \<or> c = 0x0D \<or> c = 0x20 \<or> c = 0xA0
      \<or> c = 0x1680 \<or> (0x2000 \<le> c \<and> c \<le> 0x200A) \<or> c = 0x2028 \<or> c = 0x2029
      \<or> c = 0x202F \<or> c = 0x205F \<or> c = 0x3000 \<or> c = 0xFEFF)"

definition is_word :: "cu \<Rightarrow> bool" where
  "is_word c =
     ((0x30 \<le> c \<and> c \<le> 0x39) \<or> (0x41 \<le> c \<and> c \<le> 0x5A) \<or> c = 0x5F
      \<or> (0x61 \<le> c \<and> c \<le> 0x7A))"

datatype cclass =
    Lit cu
  | Space
  | NonSpace
  | WordChar
  | OneOf cclass cclass
  | NoneOf cclass

primrec in_class :: "cclass \<Rightarrow> cu \<Rightarrow> bool" where
  "in_class (Lit d) c = (c = d)"
| "in_class Space c = is_space c"
| "in_class NonSpace c = (\<not> is_space c)"
| "in_class WordChar c = is_word c"
| "in_class (OneOf a b) c = (in_class a c \<or> in_class b c)"
| "in_class (NoneOf a) c = (\<not> in_class a c)"

definition lbrace :: cu where "lbrace = 0x7B"
definition rbrace :: cu where "rbrace = 0x7D"
definition dot :: cu where "dot = 0x2E"
definition newline :: cu where "newline = 0x0A"

text \<open>
  The pattern syntax the rule uses. Every quantified term of the three patterns is a
  single character class (\<open>\s*\<close>, \<open>[\w\.]*\<close>, \<open>[\s\S]*?\<close>), an optional group
  (\<open>(\n\s*)?\<close>) or a counted literal (\<open>\.{3}\<close>). Groups, capturing or not, never
  change what a pattern matches and are not represented.
\<close>

datatype regex =
    Atom cclass
  | Seq regex regex
  | Alt regex regex
  | Star cclass
  | StarLazy cclass
  | Opt regex
  | Count nat regex
  | Bol
  | Eol

text \<open>
  A position is the index reached in the input and the input left from there. The
  matcher is the backtracking one of ECMAScript: it returns every position a pattern
  can end at, in the order backtracking tries them, so the head of the list is the
  match \<open>exec\<close> reports. A greedy star tries the longest run first, a lazy one the
  shortest.
\<close>

type_synonym pos = "nat \<times> jsstring"

fun star_greedy :: "cclass \<Rightarrow> pos \<Rightarrow> pos list" where
  "star_greedy c (i, []) = [(i, [])]"
| "star_greedy c (i, x # xs) =
     (if in_class c x then star_greedy c (Suc i, xs) else []) @ [(i, x # xs)]"

fun star_lazy :: "cclass \<Rightarrow> pos \<Rightarrow> pos list" where
  "star_lazy c (i, []) = [(i, [])]"
| "star_lazy c (i, x # xs) =
     (i, x # xs) # (if in_class c x then star_lazy c (Suc i, xs) else [])"

primrec counted :: "nat \<Rightarrow> (pos \<Rightarrow> pos list) \<Rightarrow> pos \<Rightarrow> pos list" where
  "counted 0 f p = [p]"
| "counted (Suc n) f p = concat (map (counted n f) (f p))"

fun atom :: "cclass \<Rightarrow> pos \<Rightarrow> pos list" where
  "atom c (i, []) = []"
| "atom c (i, x # xs) = (if in_class c x then [(Suc i, xs)] else [])"

primrec matches :: "regex \<Rightarrow> pos \<Rightarrow> pos list" where
  "matches (Atom c) = (\<lambda>p. atom c p)"
| "matches (Seq a b) = (\<lambda>p. concat (map (matches b) (matches a p)))"
| "matches (Alt a b) = (\<lambda>p. matches a p @ matches b p)"
| "matches (Star c) = (\<lambda>p. star_greedy c p)"
| "matches (StarLazy c) = (\<lambda>p. star_lazy c p)"
| "matches (Opt a) = (\<lambda>p. matches a p @ [p])"
| "matches (Count n a) = (\<lambda>p. counted n (matches a) p)"
| "matches Bol = (\<lambda>p. if fst p = 0 then [p] else [])"
| "matches Eol = (\<lambda>p. if snd p = [] then [p] else [])"

text \<open>
  The search of \<open>RegExp.prototype.exec\<close>: the first index, from the position given
  on, at which the pattern matches, with the index the match ends at.
\<close>

fun search :: "regex \<Rightarrow> pos \<Rightarrow> (nat \<times> nat) option" where
  "search r (i, []) =
     (case matches r (i, []) of [] \<Rightarrow> None | q # _ \<Rightarrow> Some (i, fst q))"
| "search r (i, x # xs) =
     (case matches r (i, x # xs) of
        [] \<Rightarrow> search r (Suc i, xs)
      | q # _ \<Rightarrow> Some (i, fst q))"

text \<open>
  \<open>s.match(r)\<close> for a pattern without the \<open>g\<close> flag is \<open>r.exec(s)\<close> from index 0;
  the pattern's \<open>lastIndex\<close> is neither read nor advanced.
\<close>

definition string_match :: "regex \<Rightarrow> jsstring \<Rightarrow> (nat \<times> nat) option" where
  "string_match r s = search r (0, s)"

text \<open>
  \<open>s.match(r)\<close> for a pattern with the \<open>g\<close> flag sets the pattern's \<open>lastIndex\<close>
  to 0 and calls \<open>exec\<close> until it fails: \<open>exec\<close> starts at \<open>lastIndex\<close>, fails (and
  sets \<open>lastIndex\<close> to 0) when that is beyond the input or nothing matches, and
  otherwise sets \<open>lastIndex\<close> to the end of the match; after an empty match the loop
  advances \<open>lastIndex\<close> by one. The result is the list of matched strings, \<open>null\<close>
  when there is none. The loop returns the matched strings and the final \<open>lastIndex\<close>.
\<close>

function match_loop :: "regex \<Rightarrow> jsstring \<Rightarrow> nat \<Rightarrow> jsstring list \<Rightarrow> jsstring list \<times> nat" where
  "match_loop r s li acc =
     (if length s < li then (acc, 0)
      else (case search r (li, drop li s) of
              None \<Rightarrow> (acc, 0)
            | Some (st, e) \<Rightarrow>
                (let m = substring s st e;
                     li' = (if m = [] then Suc e else e)
                 in match_loop r s li' (acc @ [m]))))"
  by pat_completeness auto

definition string_match_global :: "regex \<Rightarrow> jsstring \<Rightarrow> nat \<Rightarrow> jsstring list option \<times> nat" where
  "string_match_global r s li =
     (case match_loop r s 0 [] of
        (ms, li') \<Rightarrow> (if ms = [] then None else Some ms, li'))"

section \<open>The syntax tree and the findings\<close>

text \<open>
  Modelled from the spec: the parser and its tree are the host's (TypeScript's), not the
  repository's. A node has a kind, the offsets its text starts and ends at in the source
  text, and its children in document order; \<open>getText\<close> is the source text between the
  two offsets and \<open>getWidth\<close> their difference.
\<close>

datatype syntaxKind = JsxElement | JsxSelfClosingElement | JsxExpression | JsxAttribute | OtherKind

datatype node = Node (kind: syntaxKind) (getStart: nat) (getEnd: nat) (children: "node list")

definition getText :: "jsstring \<Rightarrow> node \<Rightarrow> jsstring" where
  "getText src n = substring src (getStart n) (getEnd n)"

definition getWidth :: "node \<Rightarrow> int" where
  "getWidth n = int (getEnd n) - int (getStart n)"

record sourceFile =
  sourceText :: jsstring
  rootNode :: node

record failure =
  offset :: int
  width :: int
  message :: string

definition createFailure :: "int \<Rightarrow> int \<Rightarrow> string \<Rightarrow> failure" where
  "createFailure start w msg = \<lparr>offset = start, width = w, message = msg\<rparr>"

text \<open>
  What a run can change: the walker's list of findings, and the \<open>lastIndex\<close> of the
  static pattern \<open>spreadRegEx\<close>, the only one of the three with the \<open>g\<close> flag. The
  list starts empty in every walker; the pattern is shared by all of them.
\<close>

record state =
  failures :: "failure list"
  lastIndex :: nat

text \<open>
  Modelled from the spec: the host's sink collects the findings in the order they are
  emitted, and \<open>hasOption\<close> tells whether a token is among the rule's options.
\<close>

definition addFailure :: "state \<Rightarrow> failure \<Rightarrow> state" where
  "addFailure st f = st\<lparr>failures := failures st @ [f]\<rparr>"

definition hasOption :: "string list \<Rightarrow> string \<Rightarrow> bool" where
  "hasOption opts opt = (opt \<in> set opts)"

datatype error = TypeError

section \<open>The rule \<open>jsx-curly-spacing\<close>\<close>

definition OPTION_ALWAYS :: string where
  "OPTION_ALWAYS = ''always''"

definition OPTION_NEVER :: string where
  "OPTION_NEVER = ''never''"

definition ALWAYS_FAILURE_STRING :: string where
  "ALWAYS_FAILURE_STRING = ''Curly braces should always have spaces inside''"

definition NEVER_FAILURE_STRING :: string where
  "NEVER_FAILURE_STRING = ''Curly braces should never have spaces inside''"

text \<open>\<^verbatim>\<open>/\{\s*\.{3}[\w\.]*\s*}/g\<close>\<close>

definition spreadRegEx :: regex where
  "spreadRegEx =
     Seq (Atom (Lit lbrace))
    (Seq (Star Space)
    (Seq (Count 3 (Atom (Lit dot)))
    (Seq (Star (OneOf WordChar (Lit dot)))
    (Seq (Star Space)
         (Atom (Lit rbrace))))))"

text \<open>\<^verbatim>\<open>/^\{(?:\s|\n)[\s\S]*?(?:\s|(?:\n\s*))}$/\<close>\<close>

definition spacedBracesRegex :: regex where
  "spacedBracesRegex =
     Seq Bol
    (Seq (Atom (Lit lbrace))
    (Seq (Alt (Atom Space) (Atom (Lit newline)))
    (Seq (StarLazy (OneOf Space NonSpace))
    (Seq (Alt (Atom Space) (Seq (Atom (Lit newline)) (Star Space)))
    (Seq (Atom (Lit rbrace))
         Eol)))))"

text \<open>\<^verbatim>\<open>/^(\{((\n\s*)?(\S[\s\S]*?))[^\s](\n\s*)?})$/\<close>\<close>

definition spacelessBracesRegex :: regex where
  "spacelessBracesRegex =
     Seq Bol
    (Seq (Seq (Atom (Lit lbrace))
         (Seq (Seq (Opt (Seq (Atom (Lit newline)) (Star Space)))
                   (Seq (Atom NonSpace) (StarLazy (OneOf Space NonSpace))))
         (Seq (Atom (NoneOf Space))
         (Seq (Opt (Seq (Atom (Lit newline)) (Star Space)))
              (Atom (Lit rbrace))))))
         Eol)"

definition hasSpreadInJsx :: "jsstring \<Rightarrow> nat \<Rightarrow> bool \<times> nat" where
  "hasSpreadInJsx s li =
     (case string_match_global spreadRegEx s li of (r, li') \<Rightarrow> (r \<noteq> None, li'))"

definition getJsxSpreads :: "jsstring \<Rightarrow> nat \<Rightarrow> jsstring list option \<times> nat" where
  "getJsxSpreads s li = string_match_global spreadRegEx s li"

definition isSkippableExpression :: "jsstring \<Rightarrow> bool" where
  "isSkippableExpression s =
     (array_indexOf [js ''{'', js ''{...'', js ''{ ...''] s \<noteq> - 1)"

definition isValidExpression :: "string list \<Rightarrow> jsstring \<Rightarrow> bool" where
  "isValidExpression opts s =
     (let always = hasOption opts OPTION_ALWAYS;
          never = hasOption opts OPTION_NEVER
      in if always then string_match spacedBracesRegex s \<noteq> None
         else if never then string_match spacelessBracesRegex s \<noteq> None
         else True)"

text \<open>
  Every visitor ends with the call of the host's visitor of the same name, which walks
  the node's children; it is the parameter \<open>super\<close>.
\<close>

definition visitJsxAttribute :: "(state \<Rightarrow> error + state) \<Rightarrow> state \<Rightarrow> error + state" where
  "visitJsxAttribute super st = super st"

definition visitJsxExpression ::
  "(state \<Rightarrow> error + state) \<Rightarrow> string list \<Rightarrow> jsstring \<Rightarrow> node \<Rightarrow> state \<Rightarrow> error + state" where
  "visitJsxExpression super opts src n st =
     (let always = hasOption opts OPTION_ALWAYS;
          never = hasOption opts OPTION_NEVER;
          s = getText src n
      in super
           (if \<not> isSkippableExpression s \<and> \<not> isValidExpression opts s then
              (if always then
                 addFailure st (createFailure (int (getStart n)) (getWidth n) ALWAYS_FAILURE_STRING)
               else if never then
                 addFailure st (createFailure (int (getStart n)) (getWidth n) NEVER_FAILURE_STRING)
               else st)
            else st))"

text \<open>The function \<open>handleJsxSpreadNode\<close> passes to \<open>forEach\<close>.\<close>

definition spreadCallback :: "string list \<Rightarrow> node \<Rightarrow> jsstring \<Rightarrow> state \<Rightarrow> jsstring \<Rightarrow> state" where
  "spreadCallback opts n s st m =
     (let always = hasOption opts OPTION_ALWAYS;
          never = hasOption opts OPTION_NEVER
      in if \<not> isValidExpression opts m then
           (let start = int (getStart n) + indexOf s m;
                w = int (length m)
            in if always then addFailure st (createFailure start w ALWAYS_FAILURE_STRING)
               else if never then addFailure st (createFailure start w NEVER_FAILURE_STRING)
               else st)
         else st)"

text \<open>
  \<open>getJsxSpreads(text).forEach(...)\<close>: calling \<open>forEach\<close> on \<open>null\<close> throws a
  \<open>TypeError\<close>.
\<close>

definition handleJsxSpreadNode :: "string list \<Rightarrow> jsstring \<Rightarrow> node \<Rightarrow> state \<Rightarrow> error + state" where
  "handleJsxSpreadNode opts src n st =
     (let s = getText src n
      in case getJsxSpreads s (lastIndex st) of
           (None, li) \<Rightarrow> Inl TypeError
         | (Some ms, li) \<Rightarrow> Inr (foldl (spreadCallback opts n s) (st\<lparr>lastIndex := li\<rparr>) ms))"

definition visitJsxElement ::
  "(state \<Rightarrow> error + state) \<Rightarrow> string list \<Rightarrow> jsstring \<Rightarrow> node \<Rightarrow> state \<Rightarrow> error + state" where
  "visitJsxElement super opts src n st =
     (let s = getText src n
      in case hasSpreadInJsx s (lastIndex st) of
           (has, li) \<Rightarrow>
             (case (if has then handleJsxSpreadNode opts src n (st\<lparr>lastIndex := li\<rparr>)
                    else Inr (st\<lparr>lastIndex := li\<rparr>)) of
                Inl e \<Rightarrow> Inl e
              | Inr st' \<Rightarrow> super st'))"

definition visitJsxSelfClosingElement ::
  "(state \<Rightarrow> error + state) \<Rightarrow> string list \<Rightarrow> jsstring \<Rightarrow> node \<Rightarrow> state \<Rightarrow> error + state" where
  "visitJsxSelfClosingElement super opts src n st =
     (let s = getText src n
      in case hasSpreadInJsx s (lastIndex st) of
           (has, li) \<Rightarrow>
             (case (if has then handleJsxSpreadNode opts src n (st\<lparr>lastIndex := li\<rparr>)
                    else Inr (st\<lparr>lastIndex := li\<rparr>)) of
                Inl e \<Rightarrow> Inl e
              | Inr st' \<Rightarrow> super st'))"

text \<open>
  Modelled from the spec: the host's traversal calls the visitor of a node's kind and,
  from the visitor's \<open>super\<close> call, walks the children in document order. An exception
  a visitor throws ends the walk.
\<close>

fun visitNode :: "string list \<Rightarrow> jsstring \<Rightarrow> node \<Rightarrow> state \<Rightarrow> error + state"
  and walkChildren :: "string list \<Rightarrow> jsstring \<Rightarrow> node list \<Rightarrow> state \<Rightarrow> error + state" where
  "visitNode opts src (Node k a b cs) st =
     (case k of
        JsxElement \<Rightarrow>
          visitJsxElement (\<lambda>st'. walkChildren opts src cs st') opts src (Node k a b cs) st
      | JsxSelfClosingElement \<Rightarrow>
          visitJsxSelfClosingElement (\<lambda>st'. walkChildren opts src cs st') opts src (Node k a b cs) st
      | JsxExpression \<Rightarrow>
          visitJsxExpression (\<lambda>st'. walkChildren opts src cs st') opts src (Node k a b cs) st
      | JsxAttribute \<Rightarrow>
          visitJsxAttribute (\<lambda>st'. walkChildren opts src cs st') st
      | OtherKind \<Rightarrow> walkChildren opts src cs st)"
| "walkChildren opts src [] st = Inr st"
| "walkChildren opts src (c # cs) st =
     (case visitNode opts src c st of
        Inl e \<Rightarrow> Inl e
      | Inr st' \<Rightarrow> walkChildren opts src cs st')"

text \<open>
  \<open>Rule.apply\<close>: a new walker, with no finding yet, walks the file; the result is the
  walker's findings. The static pattern's \<open>lastIndex\<close> is what one run leaves to the
  next, so it is an argument and a result.
\<close>

definition Rule_apply :: "string list \<Rightarrow> sourceFile \<Rightarrow> nat \<Rightarrow> error + (failure list \<times> nat)" where
  "Rule_apply opts sf li =
     (case visitNode opts (sourceText sf) (rootNode sf) \<lparr>failures = [], lastIndex = li\<rparr> of
        Inl e \<Rightarrow> Inl e
      | Inr st \<Rightarrow> Inr (failures st, lastIndex st))"

section \<open>The policy and a text's validity, in the words of the specification\<close>

text \<open>
  The definitions of this section follow the specification, not the code. They say
  which policy the options select and when the spacing inside the braces of a text
  matches a policy, and they are what the patterns of the rule are compared with.
\<close>

datatype policy = Always | Never | Unspecified

text \<open>
  The presence of \<open>always\<close> selects \<open>Always\<close>, the presence of \<open>never\<close> selects
  \<open>Never\<close>, and with neither the policy is \<open>Unspecified\<close>.
\<close>

definition spec_policy :: "string list \<Rightarrow> policy" where
  "spec_policy opts =
     (if hasOption opts OPTION_ALWAYS then Always
      else if hasOption opts OPTION_NEVER then Never
      else Unspecified)"

text \<open>
  A whitespace-or-newline character; a newline with indentation, which is a newline and
  the whitespace that follows it; and an optional one, which may also be nothing.
\<close>

definition ws_or_newline :: "cu \<Rightarrow> bool" where
  "ws_or_newline c = (is_space c \<or> c = newline)"

definition newline_indentation :: "jsstring \<Rightarrow> bool" where
  "newline_indentation l =
     (case l of [] \<Rightarrow> False | c # ws \<Rightarrow> c = newline \<and> list_all is_space ws)"

definition optional_newline_indentation :: "jsstring \<Rightarrow> bool" where
  "optional_newline_indentation l = (l = [] \<or> newline_indentation l)"

text \<open>A brace-delimited text, and its interior: what stands between the two braces.\<close>

definition braced :: "jsstring \<Rightarrow> bool" where
  "braced s = (2 \<le> length s \<and> hd s = lbrace \<and> last s = rbrace)"

definition interior :: "jsstring \<Rightarrow> jsstring" where
  "interior s = butlast (tl s)"

text \<open>
  \<open>Always\<close>: the whole text is \<open>{\<close>, then a whitespace-or-newline character, then any
  content, then a whitespace-or-newline character (possibly by way of a trailing
  newline with indentation), then \<open>}\<close>. The content is the first \<open>k\<close> characters of
  what follows the first whitespace character.
\<close>

definition spec_valid_always :: "jsstring \<Rightarrow> bool" where
  "spec_valid_always s =
     (braced s \<and>
      (case interior s of
         [] \<Rightarrow> False
       | w # body \<Rightarrow>
           ws_or_newline w \<and>
           list_ex (\<lambda>k. (Suc k = length body \<and> ws_or_newline (body ! k))
                          \<or> newline_indentation (drop k body))
             [0..<length body]))"

text \<open>
  \<open>Never\<close>: after stripping at most one optional leading newline with indentation and
  at most one optional trailing newline with indentation, the first and the last
  character of the interior that remains are both not whitespace.
  \<open>stripped_interiors\<close> lists what can remain.
\<close>

definition stripped_interiors :: "jsstring \<Rightarrow> jsstring list" where
  "stripped_interiors s =
     (let I = interior s
      in [take (j - i) (drop i I).
            i \<leftarrow> [0..<Suc (length I)], j \<leftarrow> [i..<Suc (length I)],
            optional_newline_indentation (take i I),
            optional_newline_indentation (drop j I)])"

definition spec_valid_never :: "jsstring \<Rightarrow> bool" where
  "spec_valid_never s =
     (braced s \<and>
      list_ex (\<lambda>c. c \<noteq> [] \<and> \<not> is_space (hd c) \<and> \<not> is_space (last c)) (stripped_interiors s))"

text \<open>\<open>Unspecified\<close>: always valid.\<close>

definition spec_valid :: "policy \<Rightarrow> jsstring \<Rightarrow> bool" where
  "spec_valid p s =
     (case p of
        Always \<Rightarrow> spec_valid_always s
      | Never \<Rightarrow> spec_valid_never s
      | Unspecified \<Rightarrow> True)"

text \<open>
  A text whose interior, after the stripping, is a single character that is not
  whitespace, such as \<open>{f}\<close>.
\<close>

definition spec_single_character :: "jsstring \<Rightarrow> bool" where
  "spec_single_character s =
     (braced s \<and>
      list_ex (\<lambda>c. length c = 1 \<and> \<not> is_space (hd c)) (stripped_interiors s))"

section \<open>Predicates of the proofs\<close>

text \<open>
  \<open>reaches p q\<close>: position \<open>q\<close> is position \<open>p\<close> after some of the input was consumed.
\<close>

definition reaches :: "pos \<Rightarrow> pos \<Rightarrow> bool" where
  "reaches p q = (\<exists>w. snd p = w @ snd q \<and> fst q = fst p + length w)"

text \<open>
  \<open>allowed opts x\<close>: the finding \<open>x\<close> has the message of the option that decides, the
  one of \<open>always\<close> when that is among the options and the one of \<open>never\<close> when only
  that is; with neither, no finding is allowed.
\<close>

definition allowed :: "string list \<Rightarrow> failure \<Rightarrow> bool" where
  "allowed opts x =
     (if hasOption opts OPTION_ALWAYS then message x = ALWAYS_FAILURE_STRING
      else hasOption opts OPTION_NEVER \<and> message x = NEVER_FAILURE_STRING)"

text \<open>
  \<open>appends opts f\<close>: the state transformer \<open>f\<close> never throws, adds to the findings a list
  that does not depend on the state it starts from, all of its findings allowed, and
  changes \<open>lastIndex\<close> by a function of \<open>lastIndex\<close> alone.
\<close>

definition appends :: "string list \<Rightarrow> (state \<Rightarrow> error + state) \<Rightarrow> bool" where
  "appends opts f =
     (\<exists>F u. (\<forall>st. f st = Inr (st\<lparr>failures := failures st @ F, lastIndex := u (lastIndex st)\<rparr>))
          \<and> list_all (allowed opts) F)"

section \<open>The matcher only moves forward\<close>

lemma reaches_refl: "reaches p p"
  by (simp add: reaches_def)

lemma reaches_trans: "reaches p q \<Longrightarrow> reaches q r \<Longrightarrow> reaches p r"
  unfolding reaches_def
proof -
  assume "\<exists>w. snd p = w @ snd q \<and> fst q = fst p + length w"
    and "\<exists>w. snd q = w @ snd r \<and> fst r = fst q + length w"
  then obtain w1 w2 where "snd p = w1 @ snd q" "fst q = fst p + length w1"
    "snd q = w2 @ snd r" "fst r = fst q + length w2"
    by blast
  then have "snd p = (w1 @ w2) @ snd r \<and> fst r = fst p + length (w1 @ w2)"
    by simp
  then show "\<exists>w. snd p = w @ snd r \<and> fst r = fst p + length w"
    by blast
qed

lemma reaches_step: "reaches (Suc i, xs) q \<Longrightarrow> reaches (i, x # xs) q"
proof -
  assume "reaches (Suc i, xs) q"
  then obtain w where "xs = w @ snd q" "fst q = Suc i + length w"
    by (auto simp: reaches_def)
  then have "snd (i, x # xs) = (x # w) @ snd q \<and> fst q = fst (i, x # xs) + length (x # w)"
    by simp
  then show ?thesis
    unfolding reaches_def by blast
qed

lemma atom_reaches: "q \<in> set (atom c p) \<Longrightarrow> reaches p q"
  by (cases "(c, p)" rule: atom.cases)
     (auto split: if_splits intro: reaches_step reaches_refl)

lemma star_greedy_reaches: "q \<in> set (star_greedy c p) \<Longrightarrow> reaches p q"
  by (induction c p rule: star_greedy.induct)
     (auto split: if_splits intro: reaches_step reaches_refl)

lemma star_lazy_reaches: "q \<in> set (star_lazy c p) \<Longrightarrow> reaches p q"
  by (induction c p rule: star_lazy.induct)
     (auto split: if_splits intro: reaches_step reaches_refl)

lemma counted_reaches:
  assumes f: "\<And>p q. q \<in> set (f p) \<Longrightarrow> reaches p q"
  shows "q \<in> set (counted n f p) \<Longrightarrow> reaches p q"
proof (induction n arbitrary: p)
  case 0
  then show ?case by (simp add: reaches_refl)
next
  case (Suc n)
  then obtain p' where "p' \<in> set (f p)" "q \<in> set (counted n f p')"
    by auto
  then show ?case
    using f Suc.IH reaches_trans by blast
qed

lemma matches_reaches: "q \<in> set (matches r p) \<Longrightarrow> reaches p q"
proof (induction r arbitrary: p q)
  case (Atom c)
  then show ?case by (simp add: atom_reaches)
next
  case (Seq a b)
  then obtain p' where "p' \<in> set (matches a p)" "q \<in> set (matches b p')"
    by auto
  then show ?case
    using Seq.IH reaches_trans by blast
next
  case (Alt a b)
  from Alt.prems have "q \<in> set (matches a p) \<or> q \<in> set (matches b p)"
    by simp
  then show ?case
    using Alt.IH by blast
next
  case (Star c)
  then show ?case by (simp add: star_greedy_reaches)
next
  case (StarLazy c)
  then show ?case by (simp add: star_lazy_reaches)
next
  case (Opt a)
  from Opt.prems have "q \<in> set (matches a p) \<or> q = p"
    by auto
  then show ?case
    using Opt.IH reaches_refl by blast
next
  case (Count n a)
  from Count.prems have mem: "q \<in> set (counted n (matches a) p)"
    by simp
  show ?case
    by (rule counted_reaches [OF Count.IH mem])
next
  case Bol
  then show ?case by (auto simp: reaches_refl split: if_splits)
next
  case Eol
  then show ?case by (auto simp: reaches_refl split: if_splits)
qed

text \<open>
  What \<open>search\<close> finds: the input from the position given on is \<open>u @ w @ v\<close>, the
  match starts after \<open>u\<close> and is \<open>w\<close>.
\<close>

lemma search_Some:
  "search r (i, s) = Some (st, e) \<Longrightarrow>
     \<exists>u w v. s = u @ w @ v \<and> st = i + length u \<and> e = st + length w"
proof (induction r "(i, s)" arbitrary: i s rule: search.induct)
  case (1 r i)
  then obtain q where "q \<in> set (matches r (i, []))" "st = i" "e = fst q"
    by (auto split: list.splits)
  with matches_reaches [of q r "(i, [])"] show ?case
    by (auto simp: reaches_def)
next
  case (2 r i x xs)
  show ?case
  proof (cases "matches r (i, x # xs)")
    case Nil
    with "2.prems" have "search r (Suc i, xs) = Some (st, e)"
      by simp
    from "2.hyps" [OF Nil this] obtain u w v where
      "xs = u @ w @ v" "st = Suc i + length u" "e = st + length w"
      by blast
    then have "x # xs = (x # u) @ w @ v \<and> st = i + length (x # u) \<and> e = st + length w"
      by simp
    then show ?thesis by blast
  next
    case (Cons q qs)
    with "2.prems" have eq: "st = i" "e = fst q"
      by auto
    from Cons have "q \<in> set (matches r (i, x # xs))"
      by simp
    from matches_reaches [OF this] obtain w where "x # xs = w @ snd q" "fst q = i + length w"
      by (auto simp: reaches_def)
    with eq have "x # xs = [] @ w @ snd q \<and> st = i + length ([] :: jsstring) \<and> e = st + length w"
      by simp
    then show ?thesis by blast
  qed
qed

lemma substring_mid: "substring (p @ w @ v) (length p) (length p + length w) = w"
  by (simp add: substring_def Let_def min_def max_def)

lemma search_drop:
  assumes "li \<le> length s" and "search r (li, drop li s) = Some (st, e)"
  shows "\<exists>p w v. s = p @ w @ v \<and> st = length p \<and> e = st + length w \<and> li \<le> st
           \<and> substring s st e = w"
proof -
  from search_Some [OF assms(2)] obtain u w v where
    d: "drop li s = u @ w @ v" and st: "st = li + length u" and e: "e = st + length w"
    by blast
  have "s = take li s @ drop li s"
    by simp
  with d have s: "s = (take li s @ u) @ w @ v"
    by simp
  have len: "length (take li s @ u) = st"
    using assms(1) st by simp
  have "substring s st e = w"
    using substring_mid [of "take li s @ u" w v] s len e by simp
  with s len e st show ?thesis
    by (metis le_add1)
qed

termination match_loop
proof (relation "measure (\<lambda>(r, s, li, acc). Suc (length s) - li)")
  show "wf (measure (\<lambda>(r, s, li, acc). Suc (length s) - li))"
    by simp
next
  fix r :: regex and s :: jsstring and li :: nat and acc :: "jsstring list"
    and x2 :: "nat \<times> nat" and st e :: nat and m :: jsstring and li' :: nat
  assume le: "\<not> length s < li"
    and found: "search r (li, drop li s) = Some x2" "(st, e) = x2"
    and m: "m = substring s st e"
    and li': "li' = (if m = [] then Suc e else e)"
  from le found search_drop [of li s r st e] obtain p w v where
    "s = p @ w @ v" "st = length p" "e = st + length w" "li \<le> st" "substring s st e = w"
    by auto
  with m li' have "li < li'"
    by (cases w) auto
  with le show "((r, s, li', acc @ [m]), (r, s, li, acc)) \<in> measure (\<lambda>(r, s, li, acc). Suc (length s) - li)"
    by simp
qed

section \<open>What the patterns accept\<close>

lemma seq_memI:
  "p' \<in> set (matches a p) \<Longrightarrow> q \<in> set (matches b p') \<Longrightarrow> q \<in> set (matches (Seq a b) p)"
  by auto

lemma star_lazy_any:
  "(i + length ys, zs) \<in> set (star_lazy (OneOf Space NonSpace) (i, ys @ zs))"
proof (induction ys arbitrary: i)
  case Nil
  then show ?case by (cases zs) simp_all
next
  case (Cons y ys)
  from Cons [of "Suc i"] show ?case by simp
qed

lemma search_hit: "matches r (i, s) \<noteq> [] \<Longrightarrow> search r (i, s) \<noteq> None"
  by (cases s) (auto split: list.splits)

text \<open>
  The spaced pattern accepts every text \<open>{\<close>, a whitespace character, any content, a
  whitespace character, \<open>}\<close>.
\<close>

lemma spaced_shape_matches:
  assumes w1: "is_space w1" and w2: "is_space w2"
  shows "string_match spacedBracesRegex ([lbrace, w1] @ content @ [w2, rbrace]) \<noteq> None"
proof -
  let ?n = "length content"
  let ?A = "Alt (Atom Space) (Atom (Lit newline))"
  let ?L = "StarLazy (OneOf Space NonSpace)"
  let ?B = "Alt (Atom Space) (Seq (Atom (Lit newline)) (Star Space))"
  let ?R = "Atom (Lit rbrace)"
  have r: "(4 + ?n, []) \<in> set (matches (Seq ?R Eol) (3 + ?n, [rbrace]))"
    by simp
  have b: "(3 + ?n, [rbrace]) \<in> set (matches ?B (2 + ?n, [w2, rbrace]))"
    using w2 by simp
  have l: "(2 + ?n, [w2, rbrace]) \<in> set (matches ?L (2, content @ [w2, rbrace]))"
    using star_lazy_any [of 2 content "[w2, rbrace]"] by simp
  have a: "(2, content @ [w2, rbrace]) \<in> set (matches ?A (1, w1 # content @ [w2, rbrace]))"
    using w1 by simp
  have o: "(1, w1 # content @ [w2, rbrace])
             \<in> set (matches (Atom (Lit lbrace)) (0, [lbrace, w1] @ content @ [w2, rbrace]))"
    by simp
  have s: "(0, [lbrace, w1] @ content @ [w2, rbrace])
             \<in> set (matches Bol (0, [lbrace, w1] @ content @ [w2, rbrace]))"
    by simp
  have "(4 + ?n, []) \<in> set (matches spacedBracesRegex (0, [lbrace, w1] @ content @ [w2, rbrace]))"
    unfolding spacedBracesRegex_def
    by (rule seq_memI [OF s] seq_memI [OF o] seq_memI [OF a] seq_memI [OF l] seq_memI [OF b] r)+
  then have "matches spacedBracesRegex (0, [lbrace, w1] @ content @ [w2, rbrace]) \<noteq> []"
    by auto
  then show ?thesis
    unfolding string_match_def by (rule search_hit)
qed

lemma is_space_newline: "is_space newline"
  by (simp add: is_space_def newline_def)

lemma skippable_iff:
  "isSkippableExpression s \<longleftrightarrow> s = js ''{'' \<or> s = js ''{...'' \<or> s = js ''{ ...''"
  by (auto simp: isSkippableExpression_def Let_def)

text \<open>No text with a single character between the braces is valid under \<open>never\<close>.\<close>

lemma spaceless_single_rejected:
  "string_match spacelessBracesRegex [lbrace, c, rbrace] = None"
  by (simp add: string_match_def spacelessBracesRegex_def lbrace_def rbrace_def newline_def is_space_def)

text \<open>
  With two or more characters between the braces the spaceless pattern accepts what it
  is meant to: an optional newline with indentation, a first character that is not
  whitespace, any characters, a last character that is not whitespace, and an optional
  newline with indentation.
\<close>

lemma star_greedy_spaces:
  "list_all is_space ws \<Longrightarrow> (i + length ws, zs) \<in> set (star_greedy Space (i, ws @ zs))"
proof (induction ws arbitrary: i)
  case Nil
  then show ?case by (cases zs) simp_all
next
  case (Cons w ws)
  from Cons.prems Cons.IH [of "Suc i"] show ?case by simp
qed

text \<open>
  An optional newline with indentation: nothing, or a newline followed by whitespace.
\<close>

lemma opt_indent_matches:
  assumes "ind = [] \<or> (\<exists>ws. ind = newline # ws \<and> list_all is_space ws)"
  shows "(i + length ind, zs)
           \<in> set (matches (Opt (Seq (Atom (Lit newline)) (Star Space))) (i, ind @ zs))"
proof (cases "ind = []")
  case True
  then show ?thesis by simp
next
  case False
  with assms obtain ws where ind: "ind = newline # ws" and ws: "list_all is_space ws"
    by blast
  from star_greedy_spaces [OF ws, of "Suc i" zs] show ?thesis
    by (simp add: ind)
qed

lemma spaceless_shape_matches:
  assumes c1: "\<not> is_space c1" and c2: "\<not> is_space c2"
    and lead: "lead = [] \<or> (\<exists>ws. lead = newline # ws \<and> list_all is_space ws)"
    and trail: "trail = [] \<or> (\<exists>ws. trail = newline # ws \<and> list_all is_space ws)"
  shows "string_match spacelessBracesRegex
           ([lbrace] @ lead @ [c1] @ mid @ [c2] @ trail @ [rbrace]) \<noteq> None"
proof -
  let ?O = "Opt (Seq (Atom (Lit newline)) (Star Space))"
  let ?L = "StarLazy (OneOf Space NonSpace)"
  let ?s = "[lbrace] @ lead @ [c1] @ mid @ [c2] @ trail @ [rbrace]"
  let ?a = "Suc (length lead)"
  let ?b = "Suc ?a + length mid"
  let ?c = "Suc ?b + length trail"
  have s: "(0, ?s) \<in> set (matches Bol (0, ?s))"
    by simp
  have o: "(1, lead @ [c1] @ mid @ [c2] @ trail @ [rbrace]) \<in> set (matches (Atom (Lit lbrace)) (0, ?s))"
    by simp
  have l: "(?a, [c1] @ mid @ [c2] @ trail @ [rbrace])
      \<in> set (matches ?O (1, lead @ [c1] @ mid @ [c2] @ trail @ [rbrace]))"
    using opt_indent_matches [OF lead, of 1 "[c1] @ mid @ [c2] @ trail @ [rbrace]"] by simp
  have f: "(Suc ?a, mid @ [c2] @ trail @ [rbrace])
      \<in> set (matches (Atom NonSpace) (?a, [c1] @ mid @ [c2] @ trail @ [rbrace]))"
    using c1 by simp
  have m: "(?b, [c2] @ trail @ [rbrace]) \<in> set (matches ?L (Suc ?a, mid @ [c2] @ trail @ [rbrace]))"
    using star_lazy_any [of "Suc ?a" mid "[c2] @ trail @ [rbrace]"] by simp
  have g: "(Suc ?b, trail @ [rbrace]) \<in> set (matches (Atom (NoneOf Space)) (?b, [c2] @ trail @ [rbrace]))"
    using c2 by simp
  have t: "(?c, [rbrace]) \<in> set (matches ?O (Suc ?b, trail @ [rbrace]))"
    using opt_indent_matches [OF trail, of "Suc ?b" "[rbrace]"] by simp
  have r: "(Suc ?c, []) \<in> set (matches (Atom (Lit rbrace)) (?c, [rbrace]))"
    by simp
  have e: "(Suc ?c, []) \<in> set (matches Eol (Suc ?c, []))"
    by simp
  have g2: "(?b, [c2] @ trail @ [rbrace])
      \<in> set (matches (Seq ?O (Seq (Atom NonSpace) ?L)) (1, lead @ [c1] @ mid @ [c2] @ trail @ [rbrace]))"
    by (rule seq_memI [OF l] seq_memI [OF f] m)+
  have g1: "(Suc ?c, [])
      \<in> set (matches
           (Seq (Atom (Lit lbrace))
              (Seq (Seq ?O (Seq (Atom NonSpace) ?L))
                 (Seq (Atom (NoneOf Space)) (Seq ?O (Atom (Lit rbrace)))))) (0, ?s))"
    by (rule seq_memI [OF o] seq_memI [OF g2] seq_memI [OF g] seq_memI [OF t] r)+
  have "(Suc ?c, []) \<in> set (matches spacelessBracesRegex (0, ?s))"
    unfolding spacelessBracesRegex_def
    by (rule seq_memI [OF s] seq_memI [OF g1] e)+
  then have "matches spacelessBracesRegex (0, ?s) \<noteq> []"
    by auto
  then show ?thesis
    unfolding string_match_def by (rule search_hit)
qed

section \<open>The patterns and the validity of the specification\<close>

text \<open>
  A pattern that starts with \<open>^\<close> matches a text exactly when it matches at index 0,
  and each piece of a pattern consumes a piece of the text.
\<close>

lemma search_complete:
  "search r (i, s) \<noteq> None \<Longrightarrow> \<exists>k\<le>length s. matches r (i + k, drop k s) \<noteq> []"
proof (induction r "(i, s)" arbitrary: i s rule: search.induct)
  case (1 r i)
  then show ?case by (auto split: list.splits)
next
  case (2 r i x xs)
  show ?case
  proof (cases "matches r (i, x # xs)")
    case Nil
    with "2.prems" have "search r (Suc i, xs) \<noteq> None"
      by simp
    from "2.hyps" [OF Nil this] obtain k where "k \<le> length xs" "matches r (Suc i + k, drop k xs) \<noteq> []"
      by blast
    then have "Suc k \<le> length (x # xs) \<and> matches r (i + Suc k, drop (Suc k) (x # xs)) \<noteq> []"
      by simp
    then show ?thesis by blast
  next
    case (Cons q qs)
    then have "0 \<le> length (x # xs) \<and> matches r (i + 0, drop 0 (x # xs)) \<noteq> []"
      by simp
    then show ?thesis by blast
  qed
qed

lemma string_match_anchored:
  "string_match (Seq Bol r) s \<noteq> None \<longleftrightarrow> matches r (0, s) \<noteq> []"
proof
  assume "string_match (Seq Bol r) s \<noteq> None"
  then obtain k where "matches (Seq Bol r) (0 + k, drop k s) \<noteq> []"
    unfolding string_match_def using search_complete by blast
  then show "matches r (0, s) \<noteq> []"
    by (cases k) (simp_all split: if_splits)
next
  assume "matches r (0, s) \<noteq> []"
  then have "matches (Seq Bol r) (0, s) \<noteq> []"
    by simp
  then show "string_match (Seq Bol r) s \<noteq> None"
    unfolding string_match_def by (rule search_hit)
qed

lemma atom_mem:
  "q \<in> set (atom c p) \<Longrightarrow> \<exists>x. snd p = x # snd q \<and> in_class c x"
  by (cases "(c, p)" rule: atom.cases) (auto split: if_splits)

lemma star_greedy_mem:
  "q \<in> set (star_greedy c p) \<Longrightarrow> \<exists>w. snd p = w @ snd q \<and> list_all (in_class c) w"
proof (induction c p rule: star_greedy.induct)
  case (1 c i)
  then show ?case by simp
next
  case (2 c i x xs)
  show ?case
  proof (cases "q = (i, x # xs)")
    case True
    then have "snd (i, x # xs) = [] @ snd q \<and> list_all (in_class c) []"
      by simp
    then show ?thesis by blast
  next
    case False
    with "2.prems" have inC: "in_class c x" and mem: "q \<in> set (star_greedy c (Suc i, xs))"
      by (auto split: if_splits)
    from "2.IH" [OF inC mem] obtain w where "xs = w @ snd q" "list_all (in_class c) w"
      by auto
    with inC have "snd (i, x # xs) = (x # w) @ snd q \<and> list_all (in_class c) (x # w)"
      by simp
    then show ?thesis by blast
  qed
qed

lemma suffix_mem: "q \<in> set (matches r p) \<Longrightarrow> \<exists>w. snd p = w @ snd q"
  using matches_reaches [of q r p] by (auto simp: reaches_def)

lemma seq_mem:
  "q \<in> set (matches (Seq a b) p) \<Longrightarrow> \<exists>p'. p' \<in> set (matches a p) \<and> q \<in> set (matches b p')"
  by auto

lemma opt_indent_mem:
  assumes "q \<in> set (matches (Opt (Seq (Atom (Lit newline)) (Star Space))) p)"
  shows "\<exists>w. snd p = w @ snd q \<and> optional_newline_indentation w"
proof (cases "q = p")
  case True
  then have "snd p = [] @ snd q \<and> optional_newline_indentation []"
    by (simp add: optional_newline_indentation_def)
  then show ?thesis by blast
next
  case False
  with assms obtain p' where a: "p' \<in> set (atom (Lit newline) p)" and g: "q \<in> set (star_greedy Space p')"
    by auto
  from atom_mem [OF a] have p: "snd p = newline # snd p'"
    by auto
  from star_greedy_mem [OF g] obtain w where "snd p' = w @ snd q" "list_all is_space w"
    by (auto simp: list_all_iff)
  with p have "snd p = (newline # w) @ snd q \<and> optional_newline_indentation (newline # w)"
    by (simp add: optional_newline_indentation_def newline_indentation_def)
  then show ?thesis by blast
qed



lemma braced_shape: "braced (lbrace # I @ [rbrace])" "interior (lbrace # I @ [rbrace]) = I"
  by (simp_all add: braced_def interior_def)


text \<open>
  The spaceless pattern matches only texts that are valid under \<open>Never\<close> in the words
  of the specification, and all of them but those whose interior, after the stripping,
  is a single character.
\<close>

lemma spaceless_sound:
  assumes "string_match spacelessBracesRegex s \<noteq> None"
  shows "\<exists>lead c1 mid c2 trail. s = lbrace # (lead @ (c1 # mid @ [c2]) @ trail) @ [rbrace]
           \<and> optional_newline_indentation lead \<and> optional_newline_indentation trail
           \<and> \<not> is_space c1 \<and> \<not> is_space c2"
proof -
  let ?O = "Opt (Seq (Atom (Lit newline)) (Star Space))"
  let ?L = "StarLazy (OneOf Space NonSpace)"
  let ?G2 = "Seq ?O (Seq (Atom NonSpace) ?L)"
  let ?T = "Seq (Atom (NoneOf Space)) (Seq ?O (Atom (Lit rbrace)))"
  from assms obtain q where
    "q \<in> set (matches (Seq (Seq (Atom (Lit lbrace)) (Seq ?G2 ?T)) Eol) (0, s))"
    unfolding spacelessBracesRegex_def string_match_anchored by (meson last_in_set)
  then obtain p7 where g1: "p7 \<in> set (matches (Seq (Atom (Lit lbrace)) (Seq ?G2 ?T)) (0, s))"
    and r7: "q \<in> set (matches Eol p7)"
    using seq_mem by blast
  from g1 obtain p1 where 1: "p1 \<in> set (matches (Atom (Lit lbrace)) (0, s))"
    and r1: "p7 \<in> set (matches (Seq ?G2 ?T) p1)"
    using seq_mem by blast
  from r1 obtain p4 where g2: "p4 \<in> set (matches ?G2 p1)" and t: "p7 \<in> set (matches ?T p4)"
    using seq_mem by blast
  from g2 obtain p2 where 2: "p2 \<in> set (matches ?O p1)"
    and r2: "p4 \<in> set (matches (Seq (Atom NonSpace) ?L) p2)"
    using seq_mem by blast
  from r2 obtain p3 where 3: "p3 \<in> set (matches (Atom NonSpace) p2)"
    and 4: "p4 \<in> set (matches ?L p3)"
    using seq_mem by blast
  from t obtain p5 where 5: "p5 \<in> set (matches (Atom (NoneOf Space)) p4)"
    and r5: "p7 \<in> set (matches (Seq ?O (Atom (Lit rbrace))) p5)"
    using seq_mem by blast
  from r5 obtain p6 where 6: "p6 \<in> set (matches ?O p5)"
    and 7: "p7 \<in> set (matches (Atom (Lit rbrace)) p6)"
    using seq_mem by blast
  from r7 have e: "snd p7 = []"
    by (auto split: if_splits)
  from 1 have s1: "s = lbrace # snd p1"
    using atom_mem [of p1 "Lit lbrace" "(0, s)"] by auto
  from opt_indent_mem [OF 2] obtain lead where s2: "snd p1 = lead @ snd p2"
    and lead: "optional_newline_indentation lead"
    by blast
  from 3 obtain c1 where s3: "snd p2 = c1 # snd p3" and c1: "\<not> is_space c1"
    using atom_mem [of p3 NonSpace p2] by auto
  from suffix_mem [OF 4] obtain mid where s4: "snd p3 = mid @ snd p4"
    by blast
  from 5 obtain c2 where s5: "snd p4 = c2 # snd p5" and c2: "\<not> is_space c2"
    using atom_mem [of p5 "NoneOf Space" p4] by auto
  from opt_indent_mem [OF 6] obtain trail where s6: "snd p5 = trail @ snd p6"
    and trail: "optional_newline_indentation trail"
    by blast
  from 7 e have s7: "snd p6 = [rbrace]"
    using atom_mem [of p7 "Lit rbrace" p6] by auto
  from s1 s2 s3 s4 s5 s6 s7 have "s = lbrace # (lead @ (c1 # mid @ [c2]) @ trail) @ [rbrace]"
    by simp
  with lead trail c1 c2 show ?thesis
    by blast
qed

text \<open>What can remain of the interior after the stripping.\<close>

lemma concat_map_mem:
  "x \<in> set (concat (map g xs)) \<longleftrightarrow> (\<exists>i. i \<in> set xs \<and> x \<in> set (g i))"
  by auto

lemma stripped_interiors_mem:
  "core \<in> set (stripped_interiors s) \<longleftrightarrow>
     (\<exists>i j. i \<le> j \<and> j \<le> length (interior s)
        \<and> optional_newline_indentation (take i (interior s))
        \<and> optional_newline_indentation (drop j (interior s))
        \<and> core = take (j - i) (drop i (interior s)))"
proof -
  let ?n = "length (interior s)"
  have "core \<in> set (stripped_interiors s) \<longleftrightarrow>
      (\<exists>i. i \<in> set [0..<Suc ?n] \<and> optional_newline_indentation (take i (interior s))
         \<and> (\<exists>j. j \<in> set [i..<Suc ?n]
         \<and> optional_newline_indentation (drop j (interior s))
         \<and> core = take (j - i) (drop i (interior s))))"
    unfolding stripped_interiors_def Let_def
    by (simp only: concat_map_mem) (auto simp del: upt_Suc split: if_splits)
  also have "\<dots> \<longleftrightarrow> (\<exists>i j. i \<le> j \<and> j \<le> ?n
        \<and> optional_newline_indentation (take i (interior s))
        \<and> optional_newline_indentation (drop j (interior s))
        \<and> core = take (j - i) (drop i (interior s)))"
  proof -
    have "i \<in> set [0..<Suc ?n] \<and> j \<in> set [i..<Suc ?n] \<longleftrightarrow> i \<le> j \<and> j \<le> ?n" for i j
      by (simp del: upt_Suc) arith
    then show ?thesis
      by blast
  qed
  finally show ?thesis .
qed

lemma stripped_interiors_iff:
  "core \<in> set (stripped_interiors s) \<longleftrightarrow>
     (\<exists>lead trail. interior s = lead @ core @ trail
        \<and> optional_newline_indentation lead \<and> optional_newline_indentation trail)"
proof
  assume "core \<in> set (stripped_interiors s)"
  then obtain i j where ij: "i \<le> j" "j \<le> length (interior s)"
    and c: "core = take (j - i) (drop i (interior s))"
    and o: "optional_newline_indentation (take i (interior s))"
      "optional_newline_indentation (drop j (interior s))"
    unfolding stripped_interiors_mem by blast
  have "interior s = take i (interior s) @ drop i (interior s)"
    by simp
  also have "drop i (interior s) = take (j - i) (drop i (interior s)) @ drop (j - i) (drop i (interior s))"
    by (rule append_take_drop_id [symmetric])
  also from ij have "drop (j - i) (drop i (interior s)) = drop j (interior s)"
    by simp
  finally have "interior s = take i (interior s) @ core @ drop j (interior s)"
    using c by simp
  with o show "\<exists>lead trail. interior s = lead @ core @ trail
        \<and> optional_newline_indentation lead \<and> optional_newline_indentation trail"
    by blast
next
  assume "\<exists>lead trail. interior s = lead @ core @ trail
        \<and> optional_newline_indentation lead \<and> optional_newline_indentation trail"
  then obtain lead trail where i: "interior s = lead @ core @ trail"
    and o: "optional_newline_indentation lead" "optional_newline_indentation trail"
    by blast
  let ?i = "length lead" and ?j = "length lead + length core"
  from i o have "?i \<le> ?j \<and> ?j \<le> length (interior s)
    \<and> optional_newline_indentation (take ?i (interior s))
    \<and> optional_newline_indentation (drop ?j (interior s))
    \<and> core = take (?j - ?i) (drop ?i (interior s))"
    by simp
  then show "core \<in> set (stripped_interiors s)"
    unfolding stripped_interiors_mem by blast
qed





text \<open>
  On the texts whose interior, after the stripping, is a single character that is not
  whitespace, the pattern and the specification disagree: the text is valid under
  \<open>Never\<close> in the words of the specification, the spaceless pattern rejects it, and
  under \<open>never\<close> the rule reports it.
\<close>

lemma indentation_all_space:
  "optional_newline_indentation l \<Longrightarrow> list_all is_space l"
  using is_space_newline
  by (auto simp: optional_newline_indentation_def newline_indentation_def split: list.splits)

lemma space_prefix_unique:
  assumes "a @ x # r = b @ y # q" and "list_all is_space a" and "list_all is_space b"
    and "\<not> is_space x" and "\<not> is_space y"
  shows "a = b \<and> x = y \<and> r = q"
proof -
  have "takeWhile is_space (a @ x # r) = a" "takeWhile is_space (b @ y # q) = b"
    using assms(2-5) by (simp_all add: list_all_iff takeWhile_tail)
  with assms(1) have "a = b"
    by simp
  with assms(1) show ?thesis
    by simp
qed

lemma single_character_rejected:
  assumes "spec_single_character s"
  shows "string_match spacelessBracesRegex s = None"
proof (rule ccontr)
  assume "string_match spacelessBracesRegex s \<noteq> None"
  from spaceless_sound [OF this] obtain lead c1 mid c2 trail where
    s: "s = lbrace # (lead @ (c1 # mid @ [c2]) @ trail) @ [rbrace]"
    and o: "optional_newline_indentation lead" "optional_newline_indentation trail"
    and c: "\<not> is_space c1" "\<not> is_space c2"
    by blast
  have i: "interior s = lead @ (c1 # mid @ [c2]) @ trail"
    unfolding s by (rule braced_shape)
  from assms obtain core where m: "core \<in> set (stripped_interiors s)"
    and l: "length core = 1" and h: "\<not> is_space (hd core)"
    unfolding spec_single_character_def list_ex_iff by blast
  from l obtain x where core: "core = [x]"
    by (cases core) auto
  from m obtain lead' trail' where i': "interior s = lead' @ core @ trail'"
    and o': "optional_newline_indentation lead'" "optional_newline_indentation trail'"
    unfolding stripped_interiors_iff by blast
  from i i' core have "lead @ c1 # (mid @ [c2] @ trail) = lead' @ x # trail'"
    by simp
  from space_prefix_unique [OF this] o(1) o'(1) c(1) h core
  have "mid @ [c2] @ trail = trail'"
    by (simp add: indentation_all_space)
  with o'(2) have "list_all is_space (mid @ [c2] @ trail)"
    by (simp add: indentation_all_space)
  with c(2) show False
    by simp
qed

lemma never_single_character_finding:
  assumes "hasOption opts OPTION_NEVER" and "\<not> hasOption opts OPTION_ALWAYS"
    and "spec_single_character (getText src n)"
  shows "spec_valid (spec_policy opts) (getText src n)"
    and "visitJsxExpression super opts src n st =
      super (addFailure st (createFailure (int (getStart n)) (getWidth n) NEVER_FAILURE_STRING))"
proof -
  from assms(3) have "spec_valid_never (getText src n)"
    unfolding spec_single_character_def spec_valid_never_def list_ex_iff
    by (metis One_nat_def hd_conv_nth last_conv_nth length_0_conv diff_self_eq_0 zero_neq_one zero_less_one)
  with assms(1,2) show "spec_valid (spec_policy opts) (getText src n)"
    by (simp add: spec_policy_def spec_valid_def)
  from assms(3) have b: "braced (getText src n)"
    by (simp add: spec_single_character_def)
  have "\<not> isSkippableExpression (getText src n)"
  proof
    assume "isSkippableExpression (getText src n)"
    then have "last (getText src n) \<noteq> rbrace"
      unfolding skippable_iff by (auto simp: js_def rbrace_def)
    with b show False
      by (simp add: braced_def)
  qed
  with single_character_rejected [OF assms(3)] assms(1,2)
  show "visitJsxExpression super opts src n st =
      super (addFailure st (createFailure (int (getStart n)) (getWidth n) NEVER_FAILURE_STRING))"
    by (simp add: visitJsxExpression_def Let_def isValidExpression_def)
qed

section \<open>The matches of the spread pattern\<close>

text \<open>
  Every string the global match returns occurs in the text, \<open>indexOf\<close> finds a string
  that occurs, and a slice of a node's text is a slice of the source.
\<close>

lemma match_loop_substrings:
  "m \<in> set (fst (match_loop r s li acc)) \<Longrightarrow> m \<in> set acc \<or> (\<exists>p v. s = p @ m @ v)"
proof (induction r s li acc rule: match_loop.induct)
  case (1 r s li acc)
  show ?case
  proof (cases "length s < li")
    case True
    with "1.prems" show ?thesis
      by (simp add: match_loop.simps [of r s li acc])
  next
    case le: False
    show ?thesis
    proof (cases "search r (li, drop li s)")
      case None
      with le "1.prems" show ?thesis
        by (simp add: match_loop.simps [of r s li acc])
    next
      case (Some x)
      obtain st e where x: "x = (st, e)"
        by (cases x)
      let ?m = "substring s st e"
      let ?li = "if ?m = [] then Suc e else e"
      from le Some x "1.prems" have mem: "m \<in> set (fst (match_loop r s ?li (acc @ [?m])))"
        by (simp add: match_loop.simps [of r s li acc] Let_def)
      from le Some x have "m \<in> set (acc @ [?m]) \<or> (\<exists>p v. s = p @ m @ v)"
        by (intro "1.IH" [OF _ _ _ refl refl mem]) auto
      moreover from le Some x search_drop [of li s r st e]
      have "\<exists>p v. s = p @ ?m @ v"
        by auto
      ultimately show ?thesis
        by auto
    qed
  qed
qed

lemma indexOf_found:
  "s = p @ m @ v \<Longrightarrow> \<exists>p' v'. indexOf s m = int (length p') \<and> s = p' @ m @ v'"
proof (induction s arbitrary: p)
  case Nil
  then show ?case by simp
next
  case (Cons x xs)
  show ?case
  proof (cases "take (length m) (x # xs) = m")
    case True
    then have "indexOf (x # xs) m = int (length ([] :: jsstring))
        \<and> x # xs = [] @ m @ drop (length m) (x # xs)"
      by (simp del: take_Suc_Cons drop_Suc_Cons) (metis append_take_drop_id)
    then show ?thesis
      by blast
  next
    case False
    with Cons.prems obtain p2 where p: "p = x # p2"
      by (cases p) auto
    with Cons.prems have "xs = p2 @ m @ v"
      by simp
    from Cons.IH [OF this] obtain p' v' where "indexOf xs m = int (length p')" "xs = p' @ m @ v'"
      by blast
    with False have "indexOf (x # xs) m = int (length (x # p')) \<and> x # xs = (x # p') @ m @ v'"
      by (simp add: Let_def)
    then show ?thesis
      by blast
  qed
qed

lemma substring_in_node:
  assumes "a \<le> b" and "substring src a b = p @ m @ v"
  shows "substring src (a + length p) (a + length p + length m) = m"
proof (cases "m = []")
  case True
  then show ?thesis
    by (simp add: substring_def Let_def)
next
  case False
  let ?len = "length src"
  from assms have t: "take (min b ?len - min a ?len) (drop (min a ?len) src) = p @ m @ v"
    by (simp add: substring_def Let_def min_def max_def split: if_splits)
  with False have "a < ?len"
    by (cases "a < ?len") auto
  with t have "take (min b ?len - a) (drop a src) = p @ m @ v"
    by (simp add: min_def)
  then have "drop a src = (p @ m @ v) @ drop (min b ?len - a) (drop a src)"
    by (metis append_take_drop_id)
  then have "src = (take a src @ p) @ m @ (v @ drop (min b ?len - a) (drop a src))"
    by (metis append_take_drop_id append.assoc)
  moreover have "length (take a src @ p) = a + length p"
    using \<open>a < ?len\<close> by simp
  ultimately show ?thesis
    using substring_mid [of "take a src @ p" m "v @ drop (min b ?len - a) (drop a src)"]
    by (metis)
qed

text \<open>What the loop over the matches adds to the findings.\<close>

lemma spreadCallback_step:
  "spreadCallback opts n s st m =
     st\<lparr>failures := failures st @
        (if \<not> isValidExpression opts m then
           [createFailure (int (getStart n) + indexOf s m) (int (length m))
              (if hasOption opts OPTION_ALWAYS then ALWAYS_FAILURE_STRING
               else NEVER_FAILURE_STRING)]
         else [])\<rparr>"
proof -
  have "isValidExpression opts m" if "\<not> hasOption opts OPTION_ALWAYS" "\<not> hasOption opts OPTION_NEVER"
    using that by (simp add: isValidExpression_def)
  then show ?thesis
    by (auto simp: spreadCallback_def Let_def addFailure_def)
qed

lemma foldl_spreadCallback:
  "foldl (spreadCallback opts n s) st ms =
     st\<lparr>failures := failures st @
        map (\<lambda>m. createFailure (int (getStart n) + indexOf s m) (int (length m))
                  (if hasOption opts OPTION_ALWAYS then ALWAYS_FAILURE_STRING
                   else NEVER_FAILURE_STRING))
            (filter (\<lambda>m. \<not> isValidExpression opts m) ms)\<rparr>"
proof (induction ms arbitrary: st)
  case Nil
  then show ?case by simp
next
  case (Cons m ms)
  show ?case
    by (simp only: foldl_Cons Cons.IH) (simp add: spreadCallback_step)
qed

lemma getJsxSpreads_substrings:
  assumes "getJsxSpreads s li = (Some ms, li')" and "m \<in> set ms"
  shows "\<exists>p v. s = p @ m @ v"
proof -
  from assms have "m \<in> set (fst (match_loop spreadRegEx s 0 []))"
    by (auto simp: getJsxSpreads_def string_match_global_def split: prod.splits if_splits)
  from match_loop_substrings [OF this] show ?thesis
    by simp
qed

text \<open>The global match does not read the \<open>lastIndex\<close> it is given.\<close>

lemma string_match_global_lastIndex:
  "string_match_global r s li = string_match_global r s li'"
  by (simp add: string_match_global_def)

lemma hasSpread_getJsxSpreads:
  "fst (hasSpreadInJsx s li) \<Longrightarrow> fst (getJsxSpreads s li') \<noteq> None"
  using string_match_global_lastIndex [of spreadRegEx s li li']
  by (simp add: hasSpreadInJsx_def getJsxSpreads_def split: prod.splits)

section \<open>The walk\<close>

text \<open>
  Every visitor hands to its \<open>super\<close> call the state it was given with some findings
  appended; which findings does not depend on the state. So does the whole walk.
\<close>

lemma state_update_order:
  "st\<lparr>lastIndex := l, failures := F\<rparr> = st\<lparr>failures := F, lastIndex := l\<rparr>"
  by (cases st) simp

lemma appendsI:
  assumes "\<And>st. f st = Inr (st\<lparr>failures := failures st @ F, lastIndex := u (lastIndex st)\<rparr>)"
    and "list_all (allowed opts) F"
  shows "appends opts f"
  unfolding appends_def using assms by blast

lemma appends_Inr: "appends opts Inr"
  by (rule appendsI [where F = "[]" and u = "\<lambda>l. l"]) simp_all

lemma appends_comp:
  assumes "appends opts f" and "appends opts g"
  shows "appends opts (\<lambda>st. case f st of Inl e \<Rightarrow> Inl e | Inr st' \<Rightarrow> g st')"
proof -
  from assms(1) obtain F u where
    f: "\<And>st. f st = Inr (st\<lparr>failures := failures st @ F, lastIndex := u (lastIndex st)\<rparr>)"
    and mf: "list_all (allowed opts) F"
    unfolding appends_def by blast
  from assms(2) obtain G v where
    g: "\<And>st. g st = Inr (st\<lparr>failures := failures st @ G, lastIndex := v (lastIndex st)\<rparr>)"
    and mg: "list_all (allowed opts) G"
    unfolding appends_def by blast
  show ?thesis
  proof (rule appendsI [where F = "F @ G" and u = "\<lambda>l. v (u l)"])
    fix st
    show "(case f st of Inl e \<Rightarrow> Inl e | Inr st' \<Rightarrow> g st')
        = Inr (st\<lparr>failures := failures st @ F @ G, lastIndex := v (u (lastIndex st))\<rparr>)"
      by (simp add: f g)
  next
    from mf mg show "list_all (allowed opts) (F @ G)"
      by simp
  qed
qed

lemma appends_after:
  assumes "appends opts super"
    and "\<And>st. h st = super (st\<lparr>failures := failures st @ F, lastIndex := u (lastIndex st)\<rparr>)"
    and "list_all (allowed opts) F"
  shows "appends opts h"
proof -
  from assms(1) obtain G v where
    g: "\<And>st. super st = Inr (st\<lparr>failures := failures st @ G, lastIndex := v (lastIndex st)\<rparr>)"
    and mg: "list_all (allowed opts) G"
    unfolding appends_def by blast
  show ?thesis
  proof (rule appendsI [where F = "F @ G" and u = "\<lambda>l. v (u l)"])
    fix st
    show "h st = Inr (st\<lparr>failures := failures st @ F @ G, lastIndex := v (u (lastIndex st))\<rparr>)"
      by (simp add: assms(2) g)
  next
    from assms(3) mg show "list_all (allowed opts) (F @ G)"
      by simp
  qed
qed

lemma visitJsxElement_super:
  "\<exists>F l. (\<forall>super st. visitJsxElement super opts src n st =
              super (st\<lparr>failures := failures st @ F, lastIndex := l\<rparr>))
        \<and> list_all (allowed opts) F"
proof -
  let ?s = "getText src n"
  obtain r l where g: "string_match_global spreadRegEx ?s 0 = (r, l)"
    by (cases "string_match_global spreadRegEx ?s 0")
  have g': "string_match_global spreadRegEx ?s li = (r, l)" for li
    using g string_match_global_lastIndex [of spreadRegEx ?s li 0] by simp
  show ?thesis
  proof (cases r)
    case None
    have "visitJsxElement super opts src n st = super (st\<lparr>failures := failures st @ [], lastIndex := l\<rparr>)"
      for super st
      by (simp add: visitJsxElement_def hasSpreadInJsx_def g' None)
    then show ?thesis
      by (intro exI [of _ "[]"] exI [of _ l]) simp
  next
    case (Some ms)
    let ?F = "map (\<lambda>m. createFailure (int (getStart n) + indexOf ?s m) (int (length m))
                  (if hasOption opts OPTION_ALWAYS then ALWAYS_FAILURE_STRING
                   else NEVER_FAILURE_STRING))
            (filter (\<lambda>m. \<not> isValidExpression opts m) ms)"
    have "visitJsxElement super opts src n st = super (st\<lparr>failures := failures st @ ?F, lastIndex := l\<rparr>)"
      for super st
      by (simp add: visitJsxElement_def hasSpreadInJsx_def handleJsxSpreadNode_def getJsxSpreads_def
          g' Some foldl_spreadCallback state_update_order)
    moreover have "list_all (allowed opts) ?F"
      by (auto simp: list_all_iff createFailure_def allowed_def isValidExpression_def)
    ultimately show ?thesis
      by (intro exI [of _ ?F] exI [of _ l]) simp
  qed
qed

lemma visitJsxSelfClosingElement_eq:
  "visitJsxSelfClosingElement super opts src n st = visitJsxElement super opts src n st"
  by (simp add: visitJsxSelfClosingElement_def visitJsxElement_def)

lemma visitJsxExpression_super:
  "\<exists>F. (\<forall>super st. visitJsxExpression super opts src n st =
              super (st\<lparr>failures := failures st @ F\<rparr>))
        \<and> list_all (allowed opts) F"
proof (cases "\<not> isSkippableExpression (getText src n) \<and> \<not> isValidExpression opts (getText src n)
    \<and> (hasOption opts OPTION_ALWAYS \<or> hasOption opts OPTION_NEVER)")
  case True
  let ?F = "[createFailure (int (getStart n)) (getWidth n)
              (if hasOption opts OPTION_ALWAYS then ALWAYS_FAILURE_STRING else NEVER_FAILURE_STRING)]"
  from True have "visitJsxExpression super opts src n st = super (st\<lparr>failures := failures st @ ?F\<rparr>)"
    for super st
    by (auto simp: visitJsxExpression_def Let_def addFailure_def)
  with True show ?thesis
    by (intro exI [of _ ?F]) (auto simp: createFailure_def allowed_def)
next
  case False
  then have "visitJsxExpression super opts src n st = super (st\<lparr>failures := failures st @ []\<rparr>)"
    for super st
    by (auto simp: visitJsxExpression_def Let_def)
  then show ?thesis
    by (intro exI [of _ "[]"]) simp
qed

lemma appends_visitJsxElement:
  assumes "appends opts super"
  shows "appends opts (visitJsxElement super opts src n)"
proof -
  from visitJsxElement_super [of opts src n] obtain F l where
    "\<And>st. visitJsxElement super opts src n st =
        super (st\<lparr>failures := failures st @ F, lastIndex := (\<lambda>_. l) (lastIndex st)\<rparr>)"
    and "list_all (allowed opts) F"
    by auto
  with assms show ?thesis
    by (rule appends_after)
qed

lemma appends_visitJsxExpression:
  assumes "appends opts super"
  shows "appends opts (visitJsxExpression super opts src n)"
proof -
  from visitJsxExpression_super [of opts src n] obtain F where
    "\<And>st. visitJsxExpression super opts src n st =
        super (st\<lparr>failures := failures st @ F, lastIndex := (\<lambda>l. l) (lastIndex st)\<rparr>)"
    and "list_all (allowed opts) F"
    by auto
  with assms show ?thesis
    by (rule appends_after)
qed

lemma appends_walkChildren:
  assumes "\<And>c. c \<in> set cs \<Longrightarrow> appends opts (visitNode opts src c)"
  shows "appends opts (walkChildren opts src cs)"
  using assms
proof (induction cs)
  case Nil
  have "walkChildren opts src [] = Inr"
    by (rule ext) simp
  then show ?case
    by (simp add: appends_Inr)
next
  case (Cons c cs)
  have "walkChildren opts src (c # cs)
      = (\<lambda>st. case visitNode opts src c st of Inl e \<Rightarrow> Inl e | Inr st' \<Rightarrow> walkChildren opts src cs st')"
    by (rule ext) simp
  moreover have "appends opts (visitNode opts src c)" "appends opts (walkChildren opts src cs)"
    using Cons by simp_all
  ultimately show ?case
    by (simp add: appends_comp)
qed

lemma appends_visitNode: "appends opts (visitNode opts src n)"
proof (induction n)
  case (Node k a b cs)
  then have w: "appends opts (walkChildren opts src cs)"
    by (rule appends_walkChildren)
  have eta: "(\<lambda>st'. walkChildren opts src cs st') = walkChildren opts src cs"
    by simp
  show ?case
  proof (cases k)
    case JsxElement
    then have "visitNode opts src (Node k a b cs)
        = visitJsxElement (walkChildren opts src cs) opts src (Node k a b cs)"
      by (rule_tac ext) simp
    with w show ?thesis
      by (simp add: appends_visitJsxElement)
  next
    case JsxSelfClosingElement
    then have "visitNode opts src (Node k a b cs)
        = visitJsxElement (walkChildren opts src cs) opts src (Node k a b cs)"
      by (rule_tac ext) (simp add: visitJsxSelfClosingElement_eq)
    with w show ?thesis
      by (simp add: appends_visitJsxElement)
  next
    case JsxExpression
    then have "visitNode opts src (Node k a b cs)
        = visitJsxExpression (walkChildren opts src cs) opts src (Node k a b cs)"
      by (rule_tac ext) simp
    with w show ?thesis
      by (simp add: appends_visitJsxExpression)
  next
    case JsxAttribute
    then have "visitNode opts src (Node k a b cs) = walkChildren opts src cs"
      by (rule_tac ext) (simp add: visitJsxAttribute_def)
    with w show ?thesis
      by simp
  next
    case OtherKind
    then have "visitNode opts src (Node k a b cs) = walkChildren opts src cs"
      by (rule_tac ext) simp
    with w show ?thesis
      by simp
  qed
qed

lemma Rule_apply_result:
  "\<exists>F u. (\<forall>li. Rule_apply opts sf li = Inr (F, u li)) \<and> list_all (allowed opts) F"
proof -
  from appends_visitNode [of opts "sourceText sf" "rootNode sf"] obtain F u where
    "\<And>st. visitNode opts (sourceText sf) (rootNode sf) st
        = Inr (st\<lparr>failures := failures st @ F, lastIndex := u (lastIndex st)\<rparr>)"
    and m: "list_all (allowed opts) F"
    unfolding appends_def by blast
  then have "Rule_apply opts sf li = Inr (F, u li)" for li
    by (simp add: Rule_apply_def)
  with m show ?thesis
    by blast
qed

section \<open>Both options\<close>

text \<open>With \<open>always\<close> among the options, no function of the rule looks at \<open>never\<close>.\<close>

lemma isValidExpression_always:
  "hasOption opts OPTION_ALWAYS \<Longrightarrow>
     isValidExpression opts s = (string_match spacedBracesRegex s \<noteq> None)"
  by (simp add: isValidExpression_def)

lemma hasOption_only_always: "hasOption [OPTION_ALWAYS] OPTION_ALWAYS"
  by (simp add: hasOption_def)

lemma visitJsxExpression_always:
  assumes "hasOption opts OPTION_ALWAYS"
  shows "visitJsxExpression super opts src n st = visitJsxExpression super [OPTION_ALWAYS] src n st"
  using assms hasOption_only_always
  by (simp add: visitJsxExpression_def Let_def isValidExpression_always)

lemma spreadCallback_always:
  assumes "hasOption opts OPTION_ALWAYS"
  shows "spreadCallback opts n s = spreadCallback [OPTION_ALWAYS] n s"
  using assms hasOption_only_always
  by (intro ext) (simp add: spreadCallback_def Let_def isValidExpression_always)

lemma handleJsxSpreadNode_always:
  assumes "hasOption opts OPTION_ALWAYS"
  shows "handleJsxSpreadNode opts src n st = handleJsxSpreadNode [OPTION_ALWAYS] src n st"
  by (simp add: handleJsxSpreadNode_def Let_def spreadCallback_always [OF assms]
      split: prod.splits option.splits)

lemma visitJsxElement_always:
  assumes "hasOption opts OPTION_ALWAYS"
  shows "visitJsxElement super opts src n st = visitJsxElement super [OPTION_ALWAYS] src n st"
  by (simp add: visitJsxElement_def Let_def handleJsxSpreadNode_always [OF assms]
      split: prod.splits)

lemma walkChildren_always:
  assumes "\<And>c st. c \<in> set cs \<Longrightarrow> visitNode opts src c st = visitNode [OPTION_ALWAYS] src c st"
  shows "walkChildren opts src cs st = walkChildren [OPTION_ALWAYS] src cs st"
  using assms by (induction cs arbitrary: st) (simp_all split: sum.splits)

lemma visitNode_always:
  assumes "hasOption opts OPTION_ALWAYS"
  shows "visitNode opts src n st = visitNode [OPTION_ALWAYS] src n st"
proof (induction n arbitrary: st)
  case (Node k a b cs)
  then have "walkChildren opts src cs = walkChildren [OPTION_ALWAYS] src cs"
    by (intro ext walkChildren_always)
  then show ?case
    by (cases k)
       (simp_all add: visitJsxElement_always [OF assms] visitJsxExpression_always [OF assms]
          visitJsxSelfClosingElement_eq visitJsxAttribute_def)
qed

section \<open>Expression containers\<close>




text \<open>
  C2. With \<open>always\<close> among the options, a node whose text is \<open>{\<close>, a whitespace
  character or newline, any content, a whitespace character or newline, \<open>}\<close> gives no
  finding (\<open>{ foo }\<close> is such a text), and a node whose text is \<open>{foo}\<close> gives exactly
  one finding, with the message of \<open>always\<close>, the node's start and the node's width.
\<close>

theorem always_spaced_ok_unspaced_reported:
  assumes "hasOption opts OPTION_ALWAYS"
  shows "((is_space w1 \<or> w1 = newline) \<and> (is_space w2 \<or> w2 = newline)
            \<and> getText src n = [lbrace, w1] @ content @ [w2, rbrace]
            \<longrightarrow> visitJsxExpression super opts src n st = super st)
       \<and> (getText src n = js ''{ foo }'' \<longrightarrow> visitJsxExpression super opts src n st = super st)
       \<and> (getText src n = js ''{foo}''
            \<longrightarrow> visitJsxExpression super opts src n st =
                  super (addFailure st
                    (createFailure (int (getStart n)) (getWidth n) ALWAYS_FAILURE_STRING)))"
proof (intro conjI impI)
  assume "(is_space w1 \<or> w1 = newline) \<and> (is_space w2 \<or> w2 = newline)
    \<and> getText src n = [lbrace, w1] @ content @ [w2, rbrace]"
  then have "is_space w1" "is_space w2" "getText src n = [lbrace, w1] @ content @ [w2, rbrace]"
    using is_space_newline by auto
  then have "isValidExpression opts (getText src n)"
    using assms spaced_shape_matches [of w1 w2 content]
    by (auto simp: isValidExpression_def Let_def)
  then show "visitJsxExpression super opts src n st = super st"
    by (simp add: visitJsxExpression_def Let_def)
next
  have sp: "is_space 0x20"
    by (simp add: is_space_def)
  have "js ''{ foo }'' = [lbrace, 0x20] @ js ''foo'' @ [0x20, rbrace]"
    by (simp add: js_def lbrace_def rbrace_def)
  with spaced_shape_matches [OF sp sp, of "js ''foo''"]
  have "string_match spacedBracesRegex (js ''{ foo }'') \<noteq> None"
    by simp
  moreover assume "getText src n = js ''{ foo }''"
  ultimately have "isValidExpression opts (getText src n)"
    using assms by (auto simp: isValidExpression_def Let_def)
  then show "visitJsxExpression super opts src n st = super st"
    by (simp add: visitJsxExpression_def Let_def)
next
  have "string_match spacedBracesRegex (js ''{foo}'') = None"
    by code_simp
  moreover have "\<not> isSkippableExpression (js ''{foo}'')"
    by code_simp
  moreover assume "getText src n = js ''{foo}''"
  ultimately show "visitJsxExpression super opts src n st =
      super (addFailure st (createFailure (int (getStart n)) (getWidth n) ALWAYS_FAILURE_STRING))"
    using assms by (simp add: visitJsxExpression_def Let_def isValidExpression_def)
qed

theorem always_spaced_ok_unspaced_reported_witness:
  "hasOption [''always''] OPTION_ALWAYS
   \<and> visitJsxExpression Inr [''always''] (js ''<a b={ foo }/>'') (Node JsxExpression 5 12 [])
        \<lparr>failures = [], lastIndex = 0\<rparr> = Inr \<lparr>failures = [], lastIndex = 0\<rparr>
   \<and> visitJsxExpression Inr [''always''] (js ''<a b={foo}/>'') (Node JsxExpression 5 10 [])
        \<lparr>failures = [], lastIndex = 0\<rparr>
       = Inr \<lparr>failures = [\<lparr>offset = 5, width = 5,
                 message = ''Curly braces should always have spaces inside''\<rparr>], lastIndex = 0\<rparr>"
proof -
  have o: "hasOption [''always''] OPTION_ALWAYS"
    by (simp add: hasOption_def OPTION_ALWAYS_def)
  have t1: "getText (js ''<a b={ foo }/>'') (Node JsxExpression 5 12 []) = js ''{ foo }''"
    by code_simp
  have t2: "getText (js ''<a b={foo}/>'') (Node JsxExpression 5 10 []) = js ''{foo}''"
    by code_simp
  from always_spaced_ok_unspaced_reported [OF o, of _ _ "js ''<a b={ foo }/>''"
      "Node JsxExpression 5 12 []" _ Inr "\<lparr>failures = [], lastIndex = 0\<rparr>"] t1
  have a: "visitJsxExpression Inr [''always''] (js ''<a b={ foo }/>'') (Node JsxExpression 5 12 [])
        \<lparr>failures = [], lastIndex = 0\<rparr> = Inr \<lparr>failures = [], lastIndex = 0\<rparr>"
    by simp
  from always_spaced_ok_unspaced_reported [OF o, of _ _ "js ''<a b={foo}/>''"
      "Node JsxExpression 5 10 []" _ Inr "\<lparr>failures = [], lastIndex = 0\<rparr>"] t2
  have b: "visitJsxExpression Inr [''always''] (js ''<a b={foo}/>'') (Node JsxExpression 5 10 [])
        \<lparr>failures = [], lastIndex = 0\<rparr>
       = Inr \<lparr>failures = [\<lparr>offset = 5, width = 5,
                 message = ''Curly braces should always have spaces inside''\<rparr>], lastIndex = 0\<rparr>"
    by (simp add: addFailure_def createFailure_def getWidth_def ALWAYS_FAILURE_STRING_def)
  from o a b show ?thesis
    by simp
qed

text \<open>
  C3. With \<open>never\<close> among the options and \<open>always\<close> not, a node whose text is
  \<open>{foo}\<close> gives no finding, and a node whose text is \<open>{ foo }\<close> gives exactly one
  finding, with the message of \<open>never\<close>; it spans the node.
\<close>

theorem never_unspaced_ok_spaced_reported:
  assumes "hasOption opts OPTION_NEVER" and "\<not> hasOption opts OPTION_ALWAYS"
  shows "(getText src n = js ''{foo}'' \<longrightarrow> visitJsxExpression super opts src n st = super st)
       \<and> (getText src n = js ''{ foo }''
            \<longrightarrow> visitJsxExpression super opts src n st =
                  super (addFailure st
                    (createFailure (int (getStart n)) (getWidth n) NEVER_FAILURE_STRING)))"
proof (intro conjI impI)
  have "string_match spacelessBracesRegex (js ''{foo}'') = Some (0, 5)"
    by code_simp
  moreover assume "getText src n = js ''{foo}''"
  ultimately have "isValidExpression opts (getText src n)"
    using assms by (simp add: isValidExpression_def Let_def)
  then show "visitJsxExpression super opts src n st = super st"
    by (simp add: visitJsxExpression_def Let_def)
next
  have "string_match spacelessBracesRegex (js ''{ foo }'') = None"
    by code_simp
  moreover assume t: "getText src n = js ''{ foo }''"
  ultimately have "\<not> isValidExpression opts (getText src n)"
    using assms by (simp add: isValidExpression_def Let_def)
  moreover have "\<not> isSkippableExpression (js ''{ foo }'')"
    by code_simp
  ultimately show "visitJsxExpression super opts src n st =
      super (addFailure st (createFailure (int (getStart n)) (getWidth n) NEVER_FAILURE_STRING))"
    using assms t by (simp add: visitJsxExpression_def Let_def)
qed

theorem never_unspaced_ok_spaced_reported_witness:
  "hasOption [''never''] OPTION_NEVER \<and> \<not> hasOption [''never''] OPTION_ALWAYS
   \<and> visitJsxExpression Inr [''never''] (js ''<a b={foo}/>'') (Node JsxExpression 5 10 [])
        \<lparr>failures = [], lastIndex = 0\<rparr> = Inr \<lparr>failures = [], lastIndex = 0\<rparr>
   \<and> visitJsxExpression Inr [''never''] (js ''<a b={ foo }/>'') (Node JsxExpression 5 12 [])
        \<lparr>failures = [], lastIndex = 0\<rparr>
       = Inr \<lparr>failures = [\<lparr>offset = 5, width = 7,
                 message = ''Curly braces should never have spaces inside''\<rparr>], lastIndex = 0\<rparr>"
proof -
  have o: "hasOption [''never''] OPTION_NEVER" "\<not> hasOption [''never''] OPTION_ALWAYS"
    by (simp_all add: hasOption_def OPTION_NEVER_def OPTION_ALWAYS_def)
  have t1: "getText (js ''<a b={foo}/>'') (Node JsxExpression 5 10 []) = js ''{foo}''"
    by code_simp
  have t2: "getText (js ''<a b={ foo }/>'') (Node JsxExpression 5 12 []) = js ''{ foo }''"
    by code_simp
  from never_unspaced_ok_spaced_reported [OF o, of "js ''<a b={foo}/>''"
      "Node JsxExpression 5 10 []" Inr "\<lparr>failures = [], lastIndex = 0\<rparr>"] t1
  have a: "visitJsxExpression Inr [''never''] (js ''<a b={foo}/>'') (Node JsxExpression 5 10 [])
        \<lparr>failures = [], lastIndex = 0\<rparr> = Inr \<lparr>failures = [], lastIndex = 0\<rparr>"
    by simp
  from never_unspaced_ok_spaced_reported [OF o, of "js ''<a b={ foo }/>''"
      "Node JsxExpression 5 12 []" Inr "\<lparr>failures = [], lastIndex = 0\<rparr>"] t2
  have b: "visitJsxExpression Inr [''never''] (js ''<a b={ foo }/>'') (Node JsxExpression 5 12 [])
        \<lparr>failures = [], lastIndex = 0\<rparr>
       = Inr \<lparr>failures = [\<lparr>offset = 5, width = 7,
                 message = ''Curly braces should never have spaces inside''\<rparr>], lastIndex = 0\<rparr>"
    by (simp add: addFailure_def createFailure_def getWidth_def NEVER_FAILURE_STRING_def)
  from o a b show ?thesis
    by simp
qed

text \<open>
  C4 fails on the code for an interior of one character. The pattern asks for a
  non-whitespace character (\<open>\S\<close>) and then for another one (\<open>[^\s]\<close>), so it
  rejects \<open>{f}\<close>, and with \<open>never\<close> the rule reports a text that has no space in it
  with the message that braces should never have spaces inside.
\<close>

theorem never_single_character_reported:
  "getText (js ''<a b={f}/>'') (Node JsxExpression 5 8 []) = js ''{f}''
   \<and> string_match spacelessBracesRegex (js ''{f}'') = None
   \<and> visitJsxExpression Inr [''never''] (js ''<a b={f}/>'') (Node JsxExpression 5 8 [])
        \<lparr>failures = [], lastIndex = 0\<rparr>
       = Inr \<lparr>failures = [\<lparr>offset = 5, width = 3,
                 message = ''Curly braces should never have spaces inside''\<rparr>], lastIndex = 0\<rparr>"
  by code_simp

text \<open>
  With two or more characters between the braces, the first and the last not
  whitespace, the visitor emits nothing under \<open>never\<close>.
\<close>

lemma never_two_or_more_ok:
  assumes "hasOption opts OPTION_NEVER" and "\<not> hasOption opts OPTION_ALWAYS"
    and "\<not> is_space c1" and "\<not> is_space c2"
    and "lead = [] \<or> (\<exists>ws. lead = newline # ws \<and> list_all is_space ws)"
    and "trail = [] \<or> (\<exists>ws. trail = newline # ws \<and> list_all is_space ws)"
    and "getText src n = [lbrace] @ lead @ [c1] @ mid @ [c2] @ trail @ [rbrace]"
  shows "visitJsxExpression super opts src n st = super st"
proof -
  from spaceless_shape_matches [OF assms(3-6), of mid] assms(1,2,7)
  have "isValidExpression opts (getText src n)"
    by (auto simp: isValidExpression_def Let_def)
  then show ?thesis
    by (simp add: visitJsxExpression_def Let_def)
qed

text \<open>
  C5. Whatever the options, the visitor emits nothing for a node whose text is exactly
  \<open>{\<close>, \<open>{...\<close> or \<open>{ ...\<close>: the state goes unchanged to the walk of the children.
\<close>

theorem degenerate_texts_never_reported:
  assumes "getText src n = js ''{'' \<or> getText src n = js ''{...'' \<or> getText src n = js ''{ ...''"
  shows "visitJsxExpression super opts src n st = super st"
proof -
  from assms have "isSkippableExpression (getText src n)"
    by (simp only: skippable_iff)
  then show ?thesis
    by (simp add: visitJsxExpression_def Let_def)
qed

theorem degenerate_texts_never_reported_witness:
  "getText (js ''<a { .../>'') (Node JsxExpression 3 8 []) = js ''{ ...''
   \<and> visitJsxExpression Inr [''never''] (js ''<a { .../>'') (Node JsxExpression 3 8 [])
        \<lparr>failures = [], lastIndex = 0\<rparr> = Inr \<lparr>failures = [], lastIndex = 0\<rparr>"
proof -
  have h: "getText (js ''<a { .../>'') (Node JsxExpression 3 8 []) = js ''{ ...''"
    by code_simp
  then have "getText (js ''<a { .../>'') (Node JsxExpression 3 8 []) = js ''{''
      \<or> getText (js ''<a { .../>'') (Node JsxExpression 3 8 []) = js ''{...''
      \<or> getText (js ''<a { .../>'') (Node JsxExpression 3 8 []) = js ''{ ...''"
    by simp
  from degenerate_texts_never_reported [OF this] h show ?thesis
    by simp
qed

section \<open>Spread attributes\<close>

text \<open>
  C6 fails on the code when a spread occurs twice with the same text. The offset of a
  match is computed as \<open>text.indexOf(match)\<close>, the first place the matched text occurs
  at, so the second \<open>{...b}\<close> of the element, at offset 14 of the source, is
  reported at offset 7, where the first one is.
\<close>

theorem repeated_spread_reported_at_first:
  "getText (js ''x = <a {...b} {...b}/>;'') (Node JsxSelfClosingElement 4 22 []) = js ''<a {...b} {...b}/>''
   \<and> getJsxSpreads (js ''<a {...b} {...b}/>'') 0 = (Some [js ''{...b}'', js ''{...b}''], 0)
   \<and> substring (js ''x = <a {...b} {...b}/>;'') 7 13 = js ''{...b}''
   \<and> substring (js ''x = <a {...b} {...b}/>;'') 14 20 = js ''{...b}''
   \<and> handleJsxSpreadNode [''always''] (js ''x = <a {...b} {...b}/>;'') (Node JsxSelfClosingElement 4 22 [])
        \<lparr>failures = [], lastIndex = 0\<rparr>
       = Inr \<lparr>failures =
                [\<lparr>offset = 7, width = 6, message = ''Curly braces should always have spaces inside''\<rparr>,
                 \<lparr>offset = 7, width = 6, message = ''Curly braces should always have spaces inside''\<rparr>],
              lastIndex = 0\<rparr>"
  by code_simp

text \<open>
  C7. When the spread handler returns, for a node whose start is not after its end, the
  findings it has added to the walker's list are, in order, one for each match that is
  not valid, and the source text between a finding's offset and its offset plus its
  width is exactly that matched string.
\<close>

theorem spread_finding_reslices_to_match:
  assumes "getStart n \<le> getEnd n" and "handleJsxSpreadNode opts src n st = Inr st'"
  shows "\<exists>ms. fst (getJsxSpreads (getText src n) (lastIndex st)) = Some ms
           \<and> take (length (failures st)) (failures st') = failures st
           \<and> list_all2
                (\<lambda>f m. 0 \<le> offset f \<and> 0 \<le> width f
                       \<and> substring src (nat (offset f)) (nat (offset f + width f)) = m)
                (drop (length (failures st)) (failures st'))
                (filter (\<lambda>m. \<not> isValidExpression opts m) ms)"
proof -
  let ?s = "getText src n"
  obtain r li where g: "getJsxSpreads ?s (lastIndex st) = (r, li)"
    by (cases "getJsxSpreads ?s (lastIndex st)")
  with assms(2) obtain ms where r: "r = Some ms"
    by (cases r) (auto simp: handleJsxSpreadNode_def Let_def)
  let ?msg = "if hasOption opts OPTION_ALWAYS then ALWAYS_FAILURE_STRING else NEVER_FAILURE_STRING"
  let ?mk = "\<lambda>m. createFailure (int (getStart n) + indexOf ?s m) (int (length m)) ?msg"
  let ?bad = "filter (\<lambda>m. \<not> isValidExpression opts m) ms"
  from assms(2) g r have st': "failures st' = failures st @ map ?mk ?bad"
    by (auto simp: handleJsxSpreadNode_def Let_def foldl_spreadCallback)
  have slice: "0 \<le> offset (?mk m) \<and> 0 \<le> width (?mk m)
      \<and> substring src (nat (offset (?mk m))) (nat (offset (?mk m) + width (?mk m))) = m"
    if "m \<in> set ms" for m
  proof -
    from getJsxSpreads_substrings [OF g [unfolded r] that] obtain p v where "?s = p @ m @ v"
      by blast
    from indexOf_found [OF this] obtain p' v' where
      i: "indexOf ?s m = int (length p')" and s: "?s = p' @ m @ v'"
      by blast
    from s have "substring src (getStart n) (getEnd n) = p' @ m @ v'"
      by (simp add: getText_def)
    from substring_in_node [OF assms(1) this]
    have "substring src (getStart n + length p') (getStart n + length p' + length m) = m" .
    moreover have "nat (int (getStart n) + int (length p')) = getStart n + length p'"
      "nat (int (getStart n) + int (length p') + int (length m)) = getStart n + length p' + length m"
      by simp_all
    ultimately show ?thesis
      using i by (simp add: createFailure_def)
  qed
  have "list_all2
          (\<lambda>f m. 0 \<le> offset f \<and> 0 \<le> width f
                 \<and> substring src (nat (offset f)) (nat (offset f + width f)) = m)
          (map ?mk ?bad) ?bad"
    unfolding list_all2_map1 by (rule list.rel_refl_strong) (use slice in simp)
  with st' g r show ?thesis
    by simp
qed

theorem spread_finding_reslices_to_match_witness:
  "getStart (Node JsxSelfClosingElement 4 24 []) \<le> getEnd (Node JsxSelfClosingElement 4 24 [])
   \<and> handleJsxSpreadNode [''never''] (js ''x = <a { ...b } {...c}/>;'')
        (Node JsxSelfClosingElement 4 24 []) \<lparr>failures = [], lastIndex = 0\<rparr>
       = Inr \<lparr>failures = [\<lparr>offset = 7, width = 8,
                 message = ''Curly braces should never have spaces inside''\<rparr>], lastIndex = 0\<rparr>
   \<and> substring (js ''x = <a { ...b } {...c}/>;'') 7 15 = js ''{ ...b }''
   \<and> (\<exists>ms. fst (getJsxSpreads
                  (getText (js ''x = <a { ...b } {...c}/>;'') (Node JsxSelfClosingElement 4 24 []))
                  (lastIndex \<lparr>failures = [], lastIndex = 0\<rparr>)) = Some ms
           \<and> take (length (failures \<lparr>failures = [], lastIndex = 0\<rparr>))
                (failures \<lparr>failures = [\<lparr>offset = 7, width = 8,
                   message = ''Curly braces should never have spaces inside''\<rparr>], lastIndex = 0\<rparr>)
               = failures \<lparr>failures = [], lastIndex = 0\<rparr>
           \<and> list_all2
                (\<lambda>f m. 0 \<le> offset f \<and> 0 \<le> width f
                       \<and> substring (js ''x = <a { ...b } {...c}/>;'')
                            (nat (offset f)) (nat (offset f + width f)) = m)
                (drop (length (failures \<lparr>failures = [], lastIndex = 0\<rparr>))
                   (failures \<lparr>failures = [\<lparr>offset = 7, width = 8,
                      message = ''Curly braces should never have spaces inside''\<rparr>], lastIndex = 0\<rparr>))
                (filter (\<lambda>m. \<not> isValidExpression [''never''] m) ms))"
proof -
  have h1: "getStart (Node JsxSelfClosingElement 4 24 []) \<le> getEnd (Node JsxSelfClosingElement 4 24 [])"
    by simp
  have h2: "handleJsxSpreadNode [''never''] (js ''x = <a { ...b } {...c}/>;'')
        (Node JsxSelfClosingElement 4 24 []) \<lparr>failures = [], lastIndex = 0\<rparr>
       = Inr \<lparr>failures = [\<lparr>offset = 7, width = 8,
                 message = ''Curly braces should never have spaces inside''\<rparr>], lastIndex = 0\<rparr>"
    by code_simp
  have h3: "substring (js ''x = <a { ...b } {...c}/>;'') 7 15 = js ''{ ...b }''"
    by code_simp
  from spread_finding_reslices_to_match [OF h1 h2] h1 h2 h3 show ?thesis
    by (intro conjI)
qed

text \<open>
  C9. Whenever \<open>hasSpreadInJsx\<close> has returned true for a text, \<open>getJsxSpreads\<close> on
  that text, called with the \<open>lastIndex\<close> the first call has left, returns a list and
  not \<open>null\<close>. So the \<open>TypeError\<close> of \<open>forEach\<close> on \<open>null\<close> is unreachable: the
  visitors of elements and self-closing elements throw it only if their \<open>super\<close> call
  does, and a run of the rule does not throw it.
\<close>

theorem spread_list_never_null:
  "(fst (hasSpreadInJsx s li) \<longrightarrow> fst (getJsxSpreads s (snd (hasSpreadInJsx s li))) \<noteq> None)
   \<and> (visitJsxElement super opts src n st = Inl TypeError \<longrightarrow> (\<exists>st'. super st' = Inl TypeError))
   \<and> (visitJsxSelfClosingElement super opts src n st = Inl TypeError
        \<longrightarrow> (\<exists>st'. super st' = Inl TypeError))
   \<and> Rule_apply opts sf li \<noteq> Inl TypeError"
proof (intro conjI impI)
  assume "fst (hasSpreadInJsx s li)"
  then show "fst (getJsxSpreads s (snd (hasSpreadInJsx s li))) \<noteq> None"
    by (rule hasSpread_getJsxSpreads)
next
  assume "visitJsxElement super opts src n st = Inl TypeError"
  with visitJsxElement_super [of opts src n] show "\<exists>st'. super st' = Inl TypeError"
    by metis
next
  assume "visitJsxSelfClosingElement super opts src n st = Inl TypeError"
  with visitJsxElement_super [of opts src n] show "\<exists>st'. super st' = Inl TypeError"
    unfolding visitJsxSelfClosingElement_eq by metis
next
  from Rule_apply_result [of opts sf] show "Rule_apply opts sf li \<noteq> Inl TypeError"
    by auto
qed

theorem spread_list_never_null_witness:
  "fst (hasSpreadInJsx (js ''<a {...b}/>'') 3)
   \<and> fst (getJsxSpreads (js ''<a {...b}/>'') (snd (hasSpreadInJsx (js ''<a {...b}/>'') 3)))
       = Some [js ''{...b}'']
   \<and> visitJsxElement Inr [''always''] (js ''<a {...b}/>'') (Node JsxSelfClosingElement 0 11 [])
        \<lparr>failures = [], lastIndex = 3\<rparr> \<noteq> Inl TypeError"
proof -
  have h: "fst (hasSpreadInJsx (js ''<a {...b}/>'') 3)"
    by code_simp
  have v: "fst (getJsxSpreads (js ''<a {...b}/>'') (snd (hasSpreadInJsx (js ''<a {...b}/>'') 3)))
       = Some [js ''{...b}'']"
    by code_simp
  have "\<And>st'. Inr st' \<noteq> (Inl TypeError :: error + state)"
    by simp
  with spread_list_never_null [of "js ''<a {...b}/>''" 3 Inr "[''always'']" "js ''<a {...b}/>''"
      "Node JsxSelfClosingElement 0 11 []" "\<lparr>failures = [], lastIndex = 3\<rparr>"]
  have "visitJsxElement Inr [''always''] (js ''<a {...b}/>'') (Node JsxSelfClosingElement 0 11 [])
        \<lparr>failures = [], lastIndex = 3\<rparr> \<noteq> Inl TypeError"
    by blast
  with h v show ?thesis
    by simp
qed

section \<open>Runs of the rule\<close>

text \<open>
  C8. A run of the rule never throws, and a second run on the same file with the same
  options, started with whatever \<open>lastIndex\<close> the first run has left in the static
  pattern, returns the same list of findings: same offsets, widths and messages, in the
  same order.
\<close>

theorem apply_twice_same_findings:
  "\<exists>fs li1 li2. Rule_apply opts sf li = Inr (fs, li1) \<and> Rule_apply opts sf li1 = Inr (fs, li2)"
  using Rule_apply_result [of opts sf] by metis

text \<open>
  C10. With both \<open>always\<close> and \<open>never\<close> among the options, a run of the rule returns
  what it returns with \<open>always\<close> alone, on every file and from every \<open>lastIndex\<close>; a
  text is valid exactly when the spaced pattern matches it; and every finding of the
  run has the message of \<open>always\<close>.
\<close>

theorem both_options_behave_as_always:
  assumes "hasOption opts OPTION_ALWAYS" and "hasOption opts OPTION_NEVER"
  shows "Rule_apply opts sf li = Rule_apply [OPTION_ALWAYS] sf li
       \<and> isValidExpression opts s = (string_match spacedBracesRegex s \<noteq> None)
       \<and> (\<exists>fs li'. Rule_apply opts sf li = Inr (fs, li')
             \<and> list_all (\<lambda>f. message f = ALWAYS_FAILURE_STRING) fs)"
proof (intro conjI)
  show "Rule_apply opts sf li = Rule_apply [OPTION_ALWAYS] sf li"
    by (simp add: Rule_apply_def visitNode_always [OF assms(1)])
  show "isValidExpression opts s = (string_match spacedBracesRegex s \<noteq> None)"
    using assms(1) by (rule isValidExpression_always)
  from Rule_apply_result [of opts sf] obtain F u where
    "Rule_apply opts sf li = Inr (F, u li)" and "list_all (allowed opts) F"
    by blast
  moreover from this assms(1) have "list_all (\<lambda>f. message f = ALWAYS_FAILURE_STRING) F"
    by (simp add: list_all_iff allowed_def)
  ultimately show "\<exists>fs li'. Rule_apply opts sf li = Inr (fs, li')
      \<and> list_all (\<lambda>f. message f = ALWAYS_FAILURE_STRING) fs"
    by blast
qed

theorem both_options_behave_as_always_witness:
  "hasOption [''never'', ''always''] OPTION_ALWAYS \<and> hasOption [''never'', ''always''] OPTION_NEVER
   \<and> Rule_apply [''never'', ''always'']
        \<lparr>sourceText = js ''<a b={ c } d={e}/>'',
         rootNode = Node JsxSelfClosingElement 0 18
           [Node JsxAttribute 3 10 [Node JsxExpression 5 10 []],
            Node JsxAttribute 11 16 [Node JsxExpression 13 16 []]]\<rparr> 0
       = Inr ([\<lparr>offset = 13, width = 3,
                 message = ''Curly braces should always have spaces inside''\<rparr>], 0)
   \<and> Rule_apply [OPTION_ALWAYS]
        \<lparr>sourceText = js ''<a b={ c } d={e}/>'',
         rootNode = Node JsxSelfClosingElement 0 18
           [Node JsxAttribute 3 10 [Node JsxExpression 5 10 []],
            Node JsxAttribute 11 16 [Node JsxExpression 13 16 []]]\<rparr> 0
       = Inr ([\<lparr>offset = 13, width = 3,
                 message = ''Curly braces should always have spaces inside''\<rparr>], 0)"
proof -
  let ?sf = "\<lparr>sourceText = js ''<a b={ c } d={e}/>'',
         rootNode = Node JsxSelfClosingElement 0 18
           [Node JsxAttribute 3 10 [Node JsxExpression 5 10 []],
            Node JsxAttribute 11 16 [Node JsxExpression 13 16 []]]\<rparr>"
  have o: "hasOption [''never'', ''always''] OPTION_ALWAYS" "hasOption [''never'', ''always''] OPTION_NEVER"
    by (simp_all add: hasOption_def OPTION_ALWAYS_def OPTION_NEVER_def)
  have r: "Rule_apply [''never'', ''always''] ?sf 0
       = Inr ([\<lparr>offset = 13, width = 3,
                 message = ''Curly braces should always have spaces inside''\<rparr>], 0)"
    by code_simp
  from both_options_behave_as_always [OF o, of ?sf 0 "[]"]
  have "Rule_apply [''never'', ''always''] ?sf 0 = Rule_apply [OPTION_ALWAYS] ?sf 0"
    by (rule conjunct1)
  with r have "Rule_apply [OPTION_ALWAYS] ?sf 0
       = Inr ([\<lparr>offset = 13, width = 3,
                 message = ''Curly braces should always have spaces inside''\<rparr>], 0)"
    by simp
  with o r show ?thesis
    by (intro conjI)
qed

end
